theory Spec2Isabelle
  imports Main "HOL-Library.Char_ord" "HOL-Library.List_Lexorder"
begin

section \<open>Evaluating a WHERE clause on a row of string cells\<close>

text \<open>
  The repository holds two programs with the same classes. \<^verbatim>\<open>src/where.cpp\<close> is the
  recursive one: \<^verbatim>\<open>Where::eval(header, row, op_index)\<close> calls itself at an OR, and its
  conditions call \<^verbatim>\<open>std::stoi\<close> and \<^verbatim>\<open>std::stod\<close> with no handler. The first file of
  \<^verbatim>\<open>src/unnamed/part_000\<close> is the loop: \<^verbatim>\<open>Where::eval(header, row)\<close> walks the operators
  with one index, every condition converts its cell in \<^verbatim>\<open>getColumnValue\<close>, which catches
  the two exceptions of the conversion, and the class \<^verbatim>\<open>Operator\<close> holds the operator
  values and their names. The second file of \<^verbatim>\<open>part_000\<close> is \<^verbatim>\<open>src/where.cpp\<close> again,
  without its comments. Definitions of \<^verbatim>\<open>src/where.cpp\<close> carry the suffix \<open>_wcpp\<close>;
  the others are those of the first file of \<^verbatim>\<open>part_000\<close>.
\<close>

subsection \<open>Data\<close>

text \<open>
  \<^verbatim>\<open>typedef std::map<std::string, int> header_t; typedef std::vector<std::string> row_t;
  typedef int operator_t;\<close>
  Both programs pass the header and the row by reference that is not const, so a
  condition is a function from the pair of them to a result and a new pair.
\<close>

type_synonym header_t = "string \<rightharpoonup> int"
type_synonym row_t = "string list"
type_synonym operator_t = int
type_synonym store = "header_t \<times> row_t"

text \<open>
  The exceptions \<^verbatim>\<open>std::stoi\<close> and \<^verbatim>\<open>std::stod\<close> throw, and the ways a call can fail:
  an exception that reaches the caller, or a read outside a vector or an array (undefined
  behaviour in C++; the model stops there and names the container).
\<close>

datatype exn = invalid_argument | out_of_range

datatype failure =
  Throw exn
  | row_out_of_bounds
  | conditions_out_of_bounds
  | ops_out_of_bounds

text \<open>\<^verbatim>\<open>virtual bool ConditionBase::eval(header_t& header, row_t& row) = 0;\<close>\<close>

type_synonym 's ConditionBase = "'s \<Rightarrow> (failure + bool) \<times> 's"

subsection \<open>The operator values\<close>

text \<open>\<^verbatim>\<open>class Operator\<close> of \<^verbatim>\<open>part_000\<close>: the values skip \<open>0x06\<close>.\<close>

definition Operator_EQ :: operator_t where "Operator_EQ = 0"
definition Operator_NE :: operator_t where "Operator_NE = 1"
definition Operator_LT :: operator_t where "Operator_LT = 2"
definition Operator_LE :: operator_t where "Operator_LE = 3"
definition Operator_GT :: operator_t where "Operator_GT = 4"
definition Operator_GE :: operator_t where "Operator_GE = 5"
definition Operator_AND :: operator_t where "Operator_AND = 7"
definition Operator_OR :: operator_t where "Operator_OR = 8"

text \<open>
  \<^verbatim>\<open>static std::string ops[8] = {"=", "!=", "<", "<=", ">", ">=", "AND", "OR"};
  return ops[op];\<close>
  The array has eight entries, at the indices 0 to 7.
\<close>

definition Operator_ops :: "string list" where
  "Operator_ops = [''='', ''!='', ''<'', ''<='', ''>'', ''>='', ''AND'', ''OR'']"

definition Operator_toString :: "operator_t \<Rightarrow> failure + string" where
  "Operator_toString op =
     (if 0 \<le> op \<and> nat op < length Operator_ops then Inr (Operator_ops ! nat op)
      else Inl ops_out_of_bounds)"

text \<open>\<^verbatim>\<open>class ConditionBase\<close> and \<^verbatim>\<open>class Where\<close> of \<^verbatim>\<open>src/where.cpp\<close>.\<close>

definition ConditionBase_EQ :: operator_t where "ConditionBase_EQ = 0"
definition ConditionBase_NE :: operator_t where "ConditionBase_NE = 1"
definition ConditionBase_LT :: operator_t where "ConditionBase_LT = 2"
definition ConditionBase_LE :: operator_t where "ConditionBase_LE = 3"
definition ConditionBase_GT :: operator_t where "ConditionBase_GT = 4"
definition ConditionBase_GE :: operator_t where "ConditionBase_GE = 5"
definition Where_AND :: operator_t where "Where_AND = 0"
definition Where_OR :: operator_t where "Where_OR = 1"

subsection \<open>The library calls\<close>

text \<open>
  \<^verbatim>\<open>header[column]\<close> is \<^verbatim>\<open>std::map::operator[]\<close>: a key that is absent is inserted
  with the value \<^verbatim>\<open>int()\<close>, which is 0, and that value is returned.
\<close>

definition header_index :: "header_t \<Rightarrow> string \<Rightarrow> int \<times> header_t" where
  "header_index header column =
     (case header column of
        Some i \<Rightarrow> (i, header)
      | None \<Rightarrow> (0, header(column \<mapsto> 0)))"

text \<open>
  \<^verbatim>\<open>row[i]\<close> is \<^verbatim>\<open>std::vector::operator[]\<close> with the \<^verbatim>\<open>int\<close> converted to
  \<^verbatim>\<open>size_t\<close>: a negative index becomes one beyond any vector.
\<close>

definition row_at :: "row_t \<Rightarrow> int \<Rightarrow> failure + string" where
  "row_at row i =
     (if 0 \<le> i \<and> nat i < length row then Inr (row ! nat i) else Inl row_out_of_bounds)"

text \<open>
  \<^verbatim>\<open>std::stoi(str)\<close> is \<^verbatim>\<open>strtol(str.c_str(), &end, 10)\<close>: white space of the C locale
  is skipped, one sign is read, then as many decimal digits as there are. No digit
  throws \<^verbatim>\<open>std::invalid_argument\<close>; a value outside \<^verbatim>\<open>int\<close> (32 bits here) throws
  \<^verbatim>\<open>std::out_of_range\<close>. What follows the digits is not looked at: the call passes no
  position argument.
\<close>

definition isspace :: "char \<Rightarrow> bool" where
  "isspace c = (c \<in> {CHR 0x20, CHR 0x09, CHR 0x0A, CHR 0x0B, CHR 0x0C, CHR 0x0D})"

definition isdigit :: "char \<Rightarrow> bool" where
  "isdigit c = (48 \<le> (of_char c :: nat) \<and> (of_char c :: nat) \<le> 57)"

definition digit_value :: "char \<Rightarrow> int" where
  "digit_value c = int (of_char c) - 48"

definition decimal :: "string \<Rightarrow> int" where
  "decimal ds = foldl (\<lambda>a c. 10 * a + digit_value c) 0 ds"

definition stoi :: "string \<Rightarrow> exn + int" where
  "stoi str =
     (let s = dropWhile isspace str;
          negative = (s \<noteq> [] \<and> hd s = CHR ''-'');
          s' = (if s \<noteq> [] \<and> (hd s = CHR ''-'' \<or> hd s = CHR ''+'') then tl s else s);
          ds = takeWhile isdigit s';
          n = (if negative then - decimal ds else decimal ds)
      in if ds = [] then Inl invalid_argument
         else if n < - 2147483648 \<or> 2147483647 < n then Inl out_of_range
         else Inr n)"

text \<open>
  The comparisons of a cell type. For \<^verbatim>\<open>int\<close> and \<^verbatim>\<open>std::string\<close> they are the order
  of the integers and the order of strings (by bytes as unsigned values, a proper prefix
  first). \<^verbatim>\<open>float\<close> is taken as a parameter: the type, its six comparisons and
  \<^verbatim>\<open>(float)std::stod(str)\<close>.
\<close>

record 'a compare =
  cmp_eq :: "'a \<Rightarrow> 'a \<Rightarrow> bool"
  cmp_ne :: "'a \<Rightarrow> 'a \<Rightarrow> bool"
  cmp_lt :: "'a \<Rightarrow> 'a \<Rightarrow> bool"
  cmp_le :: "'a \<Rightarrow> 'a \<Rightarrow> bool"
  cmp_gt :: "'a \<Rightarrow> 'a \<Rightarrow> bool"
  cmp_ge :: "'a \<Rightarrow> 'a \<Rightarrow> bool"

definition builtin_compare :: "('a::linorder) compare" where
  "builtin_compare =
     \<lparr>cmp_eq = (\<lambda>a b. a = b), cmp_ne = (\<lambda>a b. a \<noteq> b), cmp_lt = (\<lambda>a b. a < b),
      cmp_le = (\<lambda>a b. a \<le> b), cmp_gt = (\<lambda>a b. a > b), cmp_ge = (\<lambda>a b. a \<ge> b)\<rparr>"

record 'f float_t =
  float_compare :: "'f compare"
  stod :: "string \<Rightarrow> exn + 'f"

subsection \<open>Conditions of \<^verbatim>\<open>part_000\<close>\<close>

text \<open>
  \<^verbatim>\<open>bool getColumnValue(header_t& header, row_t& row, T& val)\<close>: the result is
  \<open>Some val\<close> where the source returns true and \<open>None\<close> where it returns false.
  The template's body, used for \<^verbatim>\<open>std::string\<close>, is
  \<^verbatim>\<open>val = row[header[column]]; return true;\<close>
\<close>

definition getColumnValue_string :: "string \<Rightarrow> store \<Rightarrow> (failure + string option) \<times> store" where
  "getColumnValue_string column s =
     (case s of (header, row) \<Rightarrow>
        (case header_index header column of (i, header') \<Rightarrow>
           (case row_at row i of
              Inl e \<Rightarrow> (Inl e, (header', row))
            | Inr cell \<Rightarrow> (Inr (Some cell), (header', row)))))"

text \<open>
  \<^verbatim>\<open>try { val = std::stoi(row[header[column]]); }
  catch(const std::invalid_argument& e) { return false; }
  catch(const std::out_of_range& e) { return false; }
  return true;\<close>
\<close>

definition getColumnValue_int :: "string \<Rightarrow> store \<Rightarrow> (failure + int option) \<times> store" where
  "getColumnValue_int column s =
     (case s of (header, row) \<Rightarrow>
        (case header_index header column of (i, header') \<Rightarrow>
           (case row_at row i of
              Inl e \<Rightarrow> (Inl e, (header', row))
            | Inr cell \<Rightarrow>
                (case stoi cell of
                   Inl invalid_argument \<Rightarrow> (Inr None, (header', row))
                 | Inl out_of_range \<Rightarrow> (Inr None, (header', row))
                 | Inr val \<Rightarrow> (Inr (Some val), (header', row))))))"

text \<open>The same with \<^verbatim>\<open>val = (float)std::stod(row[header[column]]);\<close>\<close>

definition getColumnValue_float ::
  "'f float_t \<Rightarrow> string \<Rightarrow> store \<Rightarrow> (failure + 'f option) \<times> store" where
  "getColumnValue_float F column s =
     (case s of (header, row) \<Rightarrow>
        (case header_index header column of (i, header') \<Rightarrow>
           (case row_at row i of
              Inl e \<Rightarrow> (Inl e, (header', row))
            | Inr cell \<Rightarrow>
                (case stod F cell of
                   Inl invalid_argument \<Rightarrow> (Inr None, (header', row))
                 | Inl out_of_range \<Rightarrow> (Inr None, (header', row))
                 | Inr val \<Rightarrow> (Inr (Some val), (header', row))))))"

text \<open>
  \<^verbatim>\<open>switch(op) { case Operator::EQ: result = (val == value); break; ...
  default: result = false; break; }\<close>
\<close>

definition Condition_switch :: "'a compare \<Rightarrow> operator_t \<Rightarrow> 'a \<Rightarrow> 'a \<Rightarrow> bool" where
  "Condition_switch cmp op val value =
     (if op = Operator_EQ then cmp_eq cmp val value
      else if op = Operator_NE then cmp_ne cmp val value
      else if op = Operator_LT then cmp_lt cmp val value
      else if op = Operator_LE then cmp_le cmp val value
      else if op = Operator_GT then cmp_gt cmp val value
      else if op = Operator_GE then cmp_ge cmp val value
      else False)"

text \<open>
  \<^verbatim>\<open>bool Condition<T>::eval(header_t& header, row_t& row)\<close>: the switch when
  \<^verbatim>\<open>getColumnValue\<close> returns true, and \<^verbatim>\<open>result = false\<close> ("conversion error")
  when it returns false.
\<close>

definition Condition_eval_T ::
  "'a compare \<Rightarrow> (string \<Rightarrow> store \<Rightarrow> (failure + 'a option) \<times> store) \<Rightarrow>
   string \<Rightarrow> operator_t \<Rightarrow> 'a \<Rightarrow> store ConditionBase" where
  "Condition_eval_T cmp getColumnValue column op value s =
     (case getColumnValue column s of
        (Inl e, s') \<Rightarrow> (Inl e, s')
      | (Inr None, s') \<Rightarrow> (Inr False, s')
      | (Inr (Some val), s') \<Rightarrow> (Inr (Condition_switch cmp op val value), s'))"

definition Condition_int_eval :: "string \<Rightarrow> operator_t \<Rightarrow> int \<Rightarrow> store ConditionBase" where
  "Condition_int_eval = Condition_eval_T builtin_compare getColumnValue_int"

definition Condition_string_eval :: "string \<Rightarrow> operator_t \<Rightarrow> string \<Rightarrow> store ConditionBase" where
  "Condition_string_eval = Condition_eval_T builtin_compare getColumnValue_string"

definition Condition_float_eval ::
  "'f float_t \<Rightarrow> string \<Rightarrow> operator_t \<Rightarrow> 'f \<Rightarrow> store ConditionBase" where
  "Condition_float_eval F = Condition_eval_T (float_compare F) (getColumnValue_float F)"

text \<open>
  A condition object: \<^verbatim>\<open>Condition<T>\<close> holds \<^verbatim>\<open>column\<close>, \<^verbatim>\<open>op\<close> and \<^verbatim>\<open>value\<close>, and
  the programs build it for \<^verbatim>\<open>T\<close> one of \<^verbatim>\<open>int\<close>, \<^verbatim>\<open>float\<close> and \<^verbatim>\<open>std::string\<close>.
  No method assigns a field after the constructor.
\<close>

datatype 'f Value = Int_value int | Float_value 'f | String_value string

datatype 'f Condition =
  Condition (column_of: string) (op_of: operator_t) (value_of: "'f Value")

definition Condition_eval :: "'f float_t \<Rightarrow> 'f Condition \<Rightarrow> store ConditionBase" where
  "Condition_eval F c =
     (case value_of c of
        Int_value v \<Rightarrow> Condition_int_eval (column_of c) (op_of c) v
      | Float_value v \<Rightarrow> Condition_float_eval F (column_of c) (op_of c) v
      | String_value v \<Rightarrow> Condition_string_eval (column_of c) (op_of c) v)"

subsection \<open>\<^verbatim>\<open>Where::eval\<close> of \<^verbatim>\<open>part_000\<close>\<close>

text \<open>
  \<^verbatim>\<open>conditions[i]->eval(header, row)\<close>: the vector is read with no check of the index.
\<close>

definition condition_at :: "'s ConditionBase list \<Rightarrow> nat \<Rightarrow> 's ConditionBase" where
  "condition_at conditions i s =
     (if i < length conditions then (conditions ! i) s else (Inl conditions_out_of_bounds, s))"

text \<open>
  The loop \<^verbatim>\<open>while(op_index < operators.size())\<close> with the variables \<^verbatim>\<open>op_index\<close> and
  \<^verbatim>\<open>result\<close>. An operator that is not \<^verbatim>\<open>Operator::AND\<close> takes the branch of OR.
\<close>

function Where_loop ::
  "'s ConditionBase list \<Rightarrow> operator_t list \<Rightarrow> nat \<Rightarrow> bool \<Rightarrow> 's \<Rightarrow> (failure + bool) \<times> 's" where
  "Where_loop conditions operators op_index result s =
     (if op_index < length operators then
        (if operators ! op_index = Operator_AND then
           (if result then
              (case condition_at conditions (Suc op_index) s of
                 (Inl e, s') \<Rightarrow> (Inl e, s')
               | (Inr b, s') \<Rightarrow> Where_loop conditions operators (Suc op_index) b s')
            else Where_loop conditions operators (Suc op_index) result s)
         else
           (if result then (Inr True, s)
            else
              (case condition_at conditions (Suc op_index) s of
                 (Inl e, s') \<Rightarrow> (Inl e, s')
               | (Inr b, s') \<Rightarrow> Where_loop conditions operators (Suc op_index) b s')))
      else (Inr result, s))"
  by pat_completeness auto
termination
  by (relation "measure (\<lambda>(conditions, operators, op_index, result, s). length operators - op_index)")
     auto

text \<open>\<^verbatim>\<open>bool result = conditions[0]->eval(header, row); size_t op_index = 0;\<close> and the loop.\<close>

definition Where_eval ::
  "'s ConditionBase list \<Rightarrow> operator_t list \<Rightarrow> 's \<Rightarrow> (failure + bool) \<times> 's" where
  "Where_eval conditions operators s =
     (case condition_at conditions 0 s of
        (Inl e, s') \<Rightarrow> (Inl e, s')
      | (Inr result, s') \<Rightarrow> Where_loop conditions operators 0 result s')"

subsection \<open>Conditions of \<^verbatim>\<open>src/where.cpp\<close>\<close>

text \<open>
  \<^verbatim>\<open>switch(op) { case EQ: return val == value; ... default: return false; }\<close>
\<close>

definition Condition_switch_wcpp :: "'a compare \<Rightarrow> operator_t \<Rightarrow> 'a \<Rightarrow> 'a \<Rightarrow> bool" where
  "Condition_switch_wcpp cmp op val value =
     (if op = ConditionBase_EQ then cmp_eq cmp val value
      else if op = ConditionBase_NE then cmp_ne cmp val value
      else if op = ConditionBase_LT then cmp_lt cmp val value
      else if op = ConditionBase_LE then cmp_le cmp val value
      else if op = ConditionBase_GT then cmp_gt cmp val value
      else if op = ConditionBase_GE then cmp_ge cmp val value
      else False)"

text \<open>
  \<^verbatim>\<open>int val = std::stoi(row[header[column]]);\<close> and the switch. Nothing catches what
  \<^verbatim>\<open>std::stoi\<close> throws.
\<close>

definition Condition_int_eval_wcpp :: "string \<Rightarrow> operator_t \<Rightarrow> int \<Rightarrow> store ConditionBase" where
  "Condition_int_eval_wcpp column op value s =
     (case s of (header, row) \<Rightarrow>
        (case header_index header column of (i, header') \<Rightarrow>
           (case row_at row i of
              Inl e \<Rightarrow> (Inl e, (header', row))
            | Inr cell \<Rightarrow>
                (case stoi cell of
                   Inl x \<Rightarrow> (Inl (Throw x), (header', row))
                 | Inr val \<Rightarrow>
                     (Inr (Condition_switch_wcpp builtin_compare op val value), (header', row))))))"

text \<open>\<^verbatim>\<open>float val = (float)std::stod(row[header[column]]);\<close> and the switch.\<close>

definition Condition_float_eval_wcpp ::
  "'f float_t \<Rightarrow> string \<Rightarrow> operator_t \<Rightarrow> 'f \<Rightarrow> store ConditionBase" where
  "Condition_float_eval_wcpp F column op value s =
     (case s of (header, row) \<Rightarrow>
        (case header_index header column of (i, header') \<Rightarrow>
           (case row_at row i of
              Inl e \<Rightarrow> (Inl e, (header', row))
            | Inr cell \<Rightarrow>
                (case stod F cell of
                   Inl x \<Rightarrow> (Inl (Throw x), (header', row))
                 | Inr val \<Rightarrow>
                     (Inr (Condition_switch_wcpp (float_compare F) op val value), (header', row))))))"

text \<open>\<^verbatim>\<open>std::string val = row[header[column]];\<close> and the switch.\<close>

definition Condition_string_eval_wcpp ::
  "string \<Rightarrow> operator_t \<Rightarrow> string \<Rightarrow> store ConditionBase" where
  "Condition_string_eval_wcpp column op value s =
     (case s of (header, row) \<Rightarrow>
        (case header_index header column of (i, header') \<Rightarrow>
           (case row_at row i of
              Inl e \<Rightarrow> (Inl e, (header', row))
            | Inr val \<Rightarrow>
                (Inr (Condition_switch_wcpp builtin_compare op val value), (header', row)))))"

definition Condition_eval_wcpp :: "'f float_t \<Rightarrow> 'f Condition \<Rightarrow> store ConditionBase" where
  "Condition_eval_wcpp F c =
     (case value_of c of
        Int_value v \<Rightarrow> Condition_int_eval_wcpp (column_of c) (op_of c) v
      | Float_value v \<Rightarrow> Condition_float_eval_wcpp F (column_of c) (op_of c) v
      | String_value v \<Rightarrow> Condition_string_eval_wcpp (column_of c) (op_of c) v)"

subsection \<open>\<^verbatim>\<open>Where::eval\<close> of \<^verbatim>\<open>src/where.cpp\<close>\<close>

text \<open>
  \<^verbatim>\<open>bool eval(header_t &header, row_t &row, int op_index = 0)\<close>: the first condition
  read is \<^verbatim>\<open>conditions[op_index]\<close>; then the loop, where
  \<^verbatim>\<open>result = result && conditions[op_index]->eval(header, row)\<close> calls the condition only
  when \<^verbatim>\<open>result\<close> is true, and \<^verbatim>\<open>result = result || eval(header, row, op_index); break;\<close>
  calls \<^verbatim>\<open>eval\<close> again only when \<^verbatim>\<open>result\<close> is false. An operator that is not
  \<^verbatim>\<open>Where::AND\<close> takes the branch of OR. The index is an \<^verbatim>\<open>int\<close> that stays at most
  the number of operators.
\<close>

function Where_eval_wcpp ::
    "'s ConditionBase list \<Rightarrow> operator_t list \<Rightarrow> nat \<Rightarrow> 's \<Rightarrow> (failure + bool) \<times> 's"
  and Where_while_wcpp ::
    "'s ConditionBase list \<Rightarrow> operator_t list \<Rightarrow> nat \<Rightarrow> bool \<Rightarrow> 's \<Rightarrow> (failure + bool) \<times> 's"
  where
  "Where_eval_wcpp conditions operators op_index s =
     (case condition_at conditions op_index s of
        (Inl e, s') \<Rightarrow> (Inl e, s')
      | (Inr result, s') \<Rightarrow> Where_while_wcpp conditions operators op_index result s')"
| "Where_while_wcpp conditions operators op_index result s =
     (if op_index < length operators then
        (if operators ! op_index = Where_AND then
           (if result then
              (case condition_at conditions (Suc op_index) s of
                 (Inl e, s') \<Rightarrow> (Inl e, s')
               | (Inr b, s') \<Rightarrow> Where_while_wcpp conditions operators (Suc op_index) b s')
            else Where_while_wcpp conditions operators (Suc op_index) False s)
         else
           (if result then (Inr True, s)
            else Where_eval_wcpp conditions operators (Suc op_index) s))
      else (Inr result, s))"
  by pat_completeness auto
termination
  by (relation "measure (\<lambda>x. case x of
         Inl (conditions, operators, op_index, s) \<Rightarrow> 2 * (length operators - op_index) + 1
       | Inr (conditions, operators, op_index, result, s) \<Rightarrow> 2 * (length operators - op_index))")
     auto

subsection \<open>Which conditions a call evaluates\<close>

text \<open>
  To observe the calls, each condition is wrapped so that it appends its position to a
  log beside the store, and the program itself runs on the wrapped conditions: the log
  it returns lists the positions of the conditions it called, in the order of the calls.
  \<open>traced_forget\<close> below shows that the wrapping changes neither the result nor the store.
\<close>

fun traced :: "nat \<Rightarrow> 's ConditionBase list \<Rightarrow> ('s \<times> nat list) ConditionBase list" where
  "traced k [] = []"
| "traced k (c # cs) =
     (\<lambda>sl. (fst (c (fst sl)), (snd (c (fst sl)), snd sl @ [k]))) # traced (Suc k) cs"

definition Where_evaluated :: "'s ConditionBase list \<Rightarrow> operator_t list \<Rightarrow> 's \<Rightarrow> nat list" where
  "Where_evaluated conditions operators s =
     snd (snd (Where_eval (traced 0 conditions) operators (s, [])))"

definition Where_evaluated_wcpp ::
  "'s ConditionBase list \<Rightarrow> operator_t list \<Rightarrow> 's \<Rightarrow> nat list" where
  "Where_evaluated_wcpp conditions operators s =
     snd (snd (Where_eval_wcpp (traced 0 conditions) operators 0 (s, [])))"

subsection \<open>The loop on lists\<close>

text \<open>
  Both programs walk the same way: \<open>walk AND result operators conditions\<close> is the loop
  with the operators still to read and the conditions after the current one.
  \<open>Where_loop_walk\<close> and \<open>Where_wcpp_walk\<close> below prove that each program is this walk;
  the properties are then proved by induction on the list of operators.
\<close>

fun walk ::
  "operator_t \<Rightarrow> bool \<Rightarrow> operator_t list \<Rightarrow> 's ConditionBase list \<Rightarrow> 's \<Rightarrow> (failure + bool) \<times> 's" where
  "walk A result [] cs s = (Inr result, s)"
| "walk A result (x # xs) cs s =
     (if x = A \<and> \<not> result then walk A result xs (tl cs) s
      else if x \<noteq> A \<and> result then (Inr True, s)
      else
        (case cs of
           [] \<Rightarrow> (Inl conditions_out_of_bounds, s)
         | c # cs' \<Rightarrow>
             (case c s of
                (Inl e, s') \<Rightarrow> (Inl e, s')
              | (Inr b, s') \<Rightarrow> walk A b xs cs' s')))"

text \<open>
  The positions \<open>walk\<close> calls, from \<open>k\<close>, the position of the first condition of the
  list: the same recursion, returning the positions in place of the result.
  \<open>walk_traced\<close> proves that this is the log of the wrapped conditions.
\<close>

fun walk_log ::
  "operator_t \<Rightarrow> bool \<Rightarrow> operator_t list \<Rightarrow> 's ConditionBase list \<Rightarrow> nat \<Rightarrow> 's \<Rightarrow> nat list" where
  "walk_log A result [] cs k s = []"
| "walk_log A result (x # xs) cs k s =
     (if x = A \<and> \<not> result then walk_log A result xs (tl cs) (Suc k) s
      else if x \<noteq> A \<and> result then []
      else
        (case cs of
           [] \<Rightarrow> []
         | c # cs' \<Rightarrow>
             (case c s of
                (Inl e, s') \<Rightarrow> [k]
              | (Inr b, s') \<Rightarrow> k # walk_log A b xs cs' (Suc k) s')))"

text \<open>
  A condition is steady on a set \<open>I\<close> of stores when, called on a store of \<open>I\<close>, it
  returns one fixed result and a store of \<open>I\<close>. It is how the proofs say that the
  conditions of a predicate do not disturb one another.
\<close>

definition steady :: "('s \<Rightarrow> bool) \<Rightarrow> 's ConditionBase \<Rightarrow> failure + bool \<Rightarrow> bool" where
  "steady I c v = (\<forall>s. I s \<longrightarrow> fst (c s) = v \<and> I (snd (c s)))"

subsection \<open>The specification's reading of a predicate\<close>

text \<open>
  This definition follows the words of the specification, not the code: the operators
  cut the conditions into maximal runs joined by AND, the runs being separated by OR.
  \<open>and_groups AND conditions operators\<close> lists the runs; the operator at position
  \<open>i\<close> stands between the conditions \<open>i\<close> and \<open>i + 1\<close>.
\<close>

fun and_groups :: "operator_t \<Rightarrow> 'a list \<Rightarrow> operator_t list \<Rightarrow> 'a list list" where
  "and_groups A (c # cs) (x # xs) =
     (if x = A then
        (case and_groups A cs xs of
           [] \<Rightarrow> [[c]]
         | g # gs \<Rightarrow> (c # g) # gs)
      else [c] # and_groups A cs xs)"
| "and_groups A [] (x # xs) = []"
| "and_groups A cs [] = [cs]"

text \<open>At least one run holds only true values.\<close>

definition some_group_true :: "operator_t \<Rightarrow> bool list \<Rightarrow> operator_t list \<Rightarrow> bool" where
  "some_group_true A bs xs = (\<exists>g \<in> set (and_groups A bs xs). \<forall>b \<in> set g. b)"

text \<open>
  The headers a call can reach from \<open>h\<close>: every binding of \<open>h\<close> is kept, and a name
  absent from \<open>h\<close> is absent or bound to 0.
\<close>

definition grown :: "header_t \<Rightarrow> header_t \<Rightarrow> bool" where
  "grown h h' = (\<forall>k. h' k = h k \<or> (h k = None \<and> h' k = Some 0))"

text \<open>
  The hypotheses of the claims. The cell a column names: none when the name is absent
  from the header or its index is outside the row.
\<close>

definition referenced_cell :: "header_t \<Rightarrow> row_t \<Rightarrow> string \<Rightarrow> string option" where
  "referenced_cell header row column =
     (case header column of
        None \<Rightarrow> None
      | Some i \<Rightarrow> (case row_at row i of Inl e \<Rightarrow> None | Inr cell \<Rightarrow> Some cell))"

text \<open>The conversion of a cell to the type of the literal throws nothing.\<close>

definition converts :: "'f float_t \<Rightarrow> 'f Value \<Rightarrow> string \<Rightarrow> bool" where
  "converts F v cell =
     (case v of
        Int_value _ \<Rightarrow> (case stoi cell of Inl _ \<Rightarrow> False | Inr _ \<Rightarrow> True)
      | Float_value _ \<Rightarrow> (case stod F cell of Inl _ \<Rightarrow> False | Inr _ \<Rightarrow> True)
      | String_value _ \<Rightarrow> True)"

text \<open>The lookup of the column and the conversion of the cell both succeed.\<close>

definition lookup_and_conversion_succeed :: "'f float_t \<Rightarrow> 'f Condition \<Rightarrow> store \<Rightarrow> bool" where
  "lookup_and_conversion_succeed F c s =
     (case referenced_cell (fst s) (snd s) (column_of c) of
        None \<Rightarrow> False
      | Some cell \<Rightarrow> converts F (value_of c) cell)"

text \<open>
  What a condition returns once it has read its cell, in \<^verbatim>\<open>part_000\<close> and in
  \<^verbatim>\<open>src/where.cpp\<close>; \<open>Condition_eval_shape\<close> and \<open>Condition_eval_wcpp_shape\<close> prove it.
\<close>

definition compared :: "'f float_t \<Rightarrow> 'f Condition \<Rightarrow> string \<Rightarrow> failure + bool" where
  "compared F c cell =
     (case value_of c of
        Int_value v \<Rightarrow>
          (case stoi cell of
             Inl x \<Rightarrow> Inr False
           | Inr n \<Rightarrow> Inr (Condition_switch builtin_compare (op_of c) n v))
      | Float_value v \<Rightarrow>
          (case stod F cell of
             Inl x \<Rightarrow> Inr False
           | Inr n \<Rightarrow> Inr (Condition_switch (float_compare F) (op_of c) n v))
      | String_value v \<Rightarrow> Inr (Condition_switch builtin_compare (op_of c) cell v))"

definition compared_wcpp :: "'f float_t \<Rightarrow> 'f Condition \<Rightarrow> string \<Rightarrow> failure + bool" where
  "compared_wcpp F c cell =
     (case value_of c of
        Int_value v \<Rightarrow>
          (case stoi cell of
             Inl x \<Rightarrow> Inl (Throw x)
           | Inr n \<Rightarrow> Inr (Condition_switch_wcpp builtin_compare (op_of c) n v))
      | Float_value v \<Rightarrow>
          (case stod F cell of
             Inl x \<Rightarrow> Inl (Throw x)
           | Inr n \<Rightarrow> Inr (Condition_switch_wcpp (float_compare F) (op_of c) n v))
      | String_value v \<Rightarrow> Inr (Condition_switch_wcpp builtin_compare (op_of c) cell v))"

subsection \<open>The data of \<^verbatim>\<open>main\<close>\<close>

text \<open>
  \<^verbatim>\<open>header_t header = {{"name", 0}, {"age", 1}, {"gender", 2}, {"score", 3}, {"company", 4}};\<close>
  and three rows of \<^verbatim>\<open>table\<close>, used below as concrete inputs.
\<close>

definition main_header :: header_t where
  "main_header =
     [''name'' \<mapsto> 0, ''age'' \<mapsto> 1, ''gender'' \<mapsto> 2, ''score'' \<mapsto> 3, ''company'' \<mapsto> 4]"

definition John_Doe :: row_t where
  "John_Doe = [''John Doe'', ''20'', ''male'', ''110.5'', ''IBX'']"

definition Jenny_Ho :: row_t where
  "Jenny_Ho = [''Jenny Ho'', ''21'', ''female'', ''100'', ''Huawei'']"

definition Bill_Gates :: row_t where
  "Bill_Gates = [''Bill Gates'', ''61'', ''male'', ''101'', ''Microsoft'']"

section \<open>Properties\<close>

lemmas Operator_defs =
  Operator_EQ_def Operator_NE_def Operator_LT_def Operator_LE_def
  Operator_GT_def Operator_GE_def Operator_AND_def Operator_OR_def

lemmas ConditionBase_defs =
  ConditionBase_EQ_def ConditionBase_NE_def ConditionBase_LT_def ConditionBase_LE_def
  ConditionBase_GT_def ConditionBase_GE_def Where_AND_def Where_OR_def

subsection \<open>Both programs are the walk\<close>

lemma Where_loop_walk:
  "op_index \<le> length operators \<Longrightarrow>
   Where_loop conditions operators op_index result s =
   walk Operator_AND result (drop op_index operators) (drop (Suc op_index) conditions) s"
proof (induction conditions operators op_index result s rule: Where_loop.induct)
  case (1 conditions operators op_index result s)
  show ?case
  proof (cases "op_index < length operators")
    case False
    with "1.prems" show ?thesis by simp
  next
    case True
    then have d: "drop op_index operators = operators ! op_index # drop (Suc op_index) operators"
      by (simp add: Cons_nth_drop_Suc)
    show ?thesis
    proof (cases "Suc op_index < length conditions")
      case inr: True
      then have c: "drop (Suc op_index) conditions =
          conditions ! Suc op_index # drop (Suc (Suc op_index)) conditions"
        by (simp add: Cons_nth_drop_Suc)
      from True inr "1.IH" show ?thesis
        apply (subst Where_loop.simps)
        apply (simp only: d c walk.simps)
        apply (auto simp: condition_at_def split: prod.splits sum.splits)
        done
    next
      case oob: False
      then have c: "drop (Suc op_index) conditions = []" by simp
      from True oob "1.IH" show ?thesis
        apply (subst Where_loop.simps)
        apply (simp only: d c walk.simps)
        apply (auto simp: condition_at_def split: prod.splits sum.splits)
        done
    qed
  qed
qed

lemma Where_eval_walk:
  "Where_eval conditions operators s =
   walk Operator_AND False (Operator_OR # operators) conditions s"
proof (cases conditions)
  case Nil
  then show ?thesis
    by (simp add: Where_eval_def condition_at_def Operator_defs)
next
  case (Cons c cs)
  have "Where_loop (c # cs) operators 0 b t = walk Operator_AND b operators cs t" for b t
    using Where_loop_walk [of 0 operators "c # cs" b t] by simp
  with Cons show ?thesis
    by (simp add: Where_eval_def condition_at_def Operator_defs split: prod.splits sum.splits)
qed

lemma Where_wcpp_walk:
  "op_index \<le> length operators \<Longrightarrow>
   Where_eval_wcpp conditions operators op_index s =
   walk Where_AND False (Where_OR # drop op_index operators) (drop op_index conditions) s"
  "op_index \<le> length operators \<Longrightarrow>
   Where_while_wcpp conditions operators op_index result s =
   walk Where_AND result (drop op_index operators) (drop (Suc op_index) conditions) s"
proof (induction conditions operators op_index s and conditions operators op_index result s
       rule: Where_eval_wcpp_Where_while_wcpp.induct)
  case (1 conditions operators op_index s)
  show ?case
  proof (cases "op_index < length conditions")
    case True
    then have c: "drop op_index conditions = conditions ! op_index # drop (Suc op_index) conditions"
      by (simp add: Cons_nth_drop_Suc)
    from True "1.IH" "1.prems" show ?thesis
      apply (subst Where_eval_wcpp.simps)
      apply (simp only: c walk.simps)
      apply (auto simp: condition_at_def ConditionBase_defs split: prod.splits sum.splits)
      done
  next
    case False
    then have c: "drop op_index conditions = []" by simp
    from False show ?thesis
      apply (subst Where_eval_wcpp.simps)
      apply (simp only: c walk.simps)
      apply (auto simp: condition_at_def ConditionBase_defs split: prod.splits sum.splits)
      done
  qed
next
  case (2 conditions operators op_index result s)
  show ?case
  proof (cases "op_index < length operators")
    case False
    with "2.prems" show ?thesis by simp
  next
    case True
    then have d: "drop op_index operators = operators ! op_index # drop (Suc op_index) operators"
      by (simp add: Cons_nth_drop_Suc)
    show ?thesis
    proof (cases "Suc op_index < length conditions")
      case inr: True
      then have c: "drop (Suc op_index) conditions =
          conditions ! Suc op_index # drop (Suc (Suc op_index)) conditions"
        by (simp add: Cons_nth_drop_Suc)
      from True inr "2.IH" show ?thesis
        apply (subst Where_while_wcpp.simps)
        apply (simp only: d c walk.simps)
        apply (auto simp: condition_at_def ConditionBase_defs split: prod.splits sum.splits)
        done
    next
      case oob: False
      then have c: "drop (Suc op_index) conditions = []" by simp
      from True oob "2.IH" show ?thesis
        apply (subst Where_while_wcpp.simps)
        apply (simp only: d c walk.simps)
        apply (auto simp: condition_at_def ConditionBase_defs split: prod.splits sum.splits)
        done
    qed
  qed
qed

lemma Where_eval_wcpp_walk:
  "Where_eval_wcpp conditions operators 0 s =
   walk Where_AND False (Where_OR # operators) conditions s"
  using Where_wcpp_walk(1) [of 0 operators conditions s] by simp

lemma tl_traced: "tl (traced k cs) = traced (Suc k) (tl cs)"
  by (cases cs) simp_all

lemma walk_traced:
  "walk A r xs (traced k cs) (s, l) =
   (fst (walk A r xs cs s), (snd (walk A r xs cs s), l @ walk_log A r xs cs k s))"
proof (induction xs arbitrary: r cs k s l)
  case Nil
  show ?case by simp
next
  case (Cons x xs)
  show ?case
  proof (cases cs)
    case Nil
    with Cons.IH [of _ _ "[]"] show ?thesis by simp
  next
    case (Cons c cs')
    with Cons.IH show ?thesis
      by (auto simp: tl_traced split: prod.splits sum.splits)
  qed
qed

lemma Where_evaluated_walk:
  "Where_evaluated cs ops s = walk_log Operator_AND False (Operator_OR # ops) cs 0 s"
  unfolding Where_evaluated_def Where_eval_walk walk_traced by simp

lemma Where_evaluated_wcpp_walk:
  "Where_evaluated_wcpp cs ops s = walk_log Where_AND False (Where_OR # ops) cs 0 s"
  unfolding Where_evaluated_wcpp_def Where_eval_wcpp_walk walk_traced by simp

subsection \<open>The calls go forward; the store after a call\<close>

lemma walk_log_increasing:
  fixes cs :: "'s ConditionBase list"
  shows "sorted_wrt (<) (walk_log A r xs cs k s) \<and>
   (\<forall>i \<in> set (walk_log A r xs cs k s). k \<le> i \<and> i < k + length cs)"
proof (induction xs arbitrary: r cs k s)
  case Nil
  show ?case by simp
next
  case (Cons x xs)
  have IH1: "sorted_wrt (<) (walk_log A r' xs cs' (Suc k) t)"
    for r' and cs' :: "'s ConditionBase list" and t
    using Cons.IH [of r' cs' "Suc k" t] by simp
  have IH2: "k < i \<and> k \<le> i \<and> i < Suc (k + length cs')"
    if "i \<in> set (walk_log A r' xs cs' (Suc k) t)"
    for i r' and cs' :: "'s ConditionBase list" and t
    using Cons.IH [of r' cs' "Suc k" t] that by auto
  show ?case
  proof (cases cs)
    case Nil
    then show ?thesis using IH1 [of r "[]" s]
      by (auto dest: IH2)
  next
    case c: (Cons c cs')
    obtain v s' where v: "c s = (v, s')" by (cases "c s")
    show ?thesis
      using c v IH1 by (cases v) (auto dest: IH2)
  qed
qed

lemma walk_log_length: "length (walk_log A r xs cs k s) \<le> length cs"
proof -
  let ?l = "walk_log A r xs cs k s"
  from walk_log_increasing [of A r xs cs k s]
  have "sorted_wrt (<) ?l" and s: "set ?l \<subseteq> {k ..< k + length cs}" by auto
  then have "distinct ?l" using strict_sorted_iff by blast
  then have "length ?l = card (set ?l)" by (simp add: distinct_card)
  also from s have "\<dots> \<le> card {k ..< k + length cs}" by (intro card_mono) auto
  finally show ?thesis by simp
qed

lemma walk_effect:
  fixes cs :: "'s ConditionBase list"
  shows "snd (walk A r xs cs s) =
   fold (\<lambda>i t. snd ((cs ! (i - k)) t)) (walk_log A r xs cs k s) s"
proof (induction xs arbitrary: r cs k s)
  case Nil
  show ?case by simp
next
  case (Cons x xs)
  have IH: "snd (walk A r' xs cs' t) =
      fold (\<lambda>i t. snd ((cs' ! (i - Suc k)) t)) (walk_log A r' xs cs' (Suc k) t) t"
    for r' and cs' :: "'s ConditionBase list" and t by (rule Cons.IH)
  show ?case
  proof (cases cs)
    case Nil
    with IH [of r "[]" s] walk_log_increasing [of A r xs "[]" "Suc k" s] show ?thesis
      by (cases "walk_log A r xs [] (Suc k) s") auto
  next
    case c: (Cons c cs')
    have shift: "fold (\<lambda>i t. snd (((c # cs') ! (i - k)) t)) (walk_log A r' xs cs' (Suc k) t) u =
                 fold (\<lambda>i t. snd ((cs' ! (i - Suc k)) t)) (walk_log A r' xs cs' (Suc k) t) u"
      for r' t u
      using walk_log_increasing [of A r' xs cs' "Suc k" t]
      by (intro fold_cong) (auto simp: Suc_diff_le)
    obtain v s' where v: "c s = (v, s')" by (cases "c s")
    show ?thesis
    proof (cases v)
      case (Inl e)
      with c v IH [of r cs' s] show ?thesis by (auto simp: shift)
    next
      case (Inr b)
      with c v IH [of r cs' s] IH [of b cs' s'] show ?thesis by (auto simp: shift)
    qed
  qed
qed

lemma walk_in_bounds:
  assumes "\<forall>c \<in> set cs. \<forall>s. fst (c s) \<noteq> Inl conditions_out_of_bounds"
    and "length xs \<le> length cs"
  shows "fst (walk A r xs cs s) \<noteq> Inl conditions_out_of_bounds"
  using assms
proof (induction xs arbitrary: r cs s)
  case Nil
  show ?case by simp
next
  case (Cons x xs)
  then obtain c cs' where c: "cs = c # cs'" by (cases cs) auto
  with Cons.prems have 1: "\<forall>c \<in> set cs'. \<forall>s. fst (c s) \<noteq> Inl conditions_out_of_bounds"
    and 2: "length xs \<le> length cs'" and 3: "fst (c s) \<noteq> Inl conditions_out_of_bounds" by auto
  have IH: "fst (walk A r' xs cs' t) \<noteq> Inl conditions_out_of_bounds" for r' t
    by (rule Cons.IH [OF 1 2])
  obtain v s' where v: "c s = (v, s')" by (cases "c s")
  with c 3 IH show ?case by (cases v) auto
qed

subsection \<open>The runs joined by AND\<close>

lemma and_groups_head:
  "length bs = length xs \<Longrightarrow> \<exists>g gs. \<forall>a. and_groups A (a # bs) xs = (a # g) # gs"
proof (induction xs arbitrary: bs)
  case Nil
  then show ?case by simp
next
  case (Cons x xs)
  then obtain b bs' where bs: "bs = b # bs'" and len: "length bs' = length xs"
    by (cases bs) auto
  from Cons.IH [OF len] obtain g gs where "\<forall>a. and_groups A (a # bs') xs = (a # g) # gs"
    by blast
  with bs show ?case by (cases "x = A") auto
qed

lemma some_group_true_single [simp]: "some_group_true A [a] [] = a"
  by (simp add: some_group_true_def)

lemma some_group_true_or:
  "x \<noteq> A \<Longrightarrow> some_group_true A (a # b # bs) (x # xs) = (a \<or> some_group_true A (b # bs) xs)"
  by (simp add: some_group_true_def)

lemma some_group_true_and:
  assumes "length bs = length xs"
  shows "some_group_true A (a # b # bs) (A # xs) =
         (if a then some_group_true A (b # bs) xs else some_group_true A (False # bs) xs)"
proof -
  from and_groups_head [OF assms, of A] obtain g gs
    where g: "\<And>c. and_groups A (c # bs) xs = (c # g) # gs" by blast
  show ?thesis by (auto simp: some_group_true_def g)
qed

lemma walk_groups:
  fixes cs :: "'s ConditionBase list"
  assumes "list_all2 (steady I) cs vs" and "length cs = length xs" and "I s"
    and "\<forall>i \<in> set (walk_log A r xs cs k s). \<exists>b. vs ! (i - k) = Inr b"
  shows "fst (walk A r xs cs s) =
         Inr (some_group_true A (r # map (\<lambda>v. v = Inr True) vs) xs)"
  using assms
proof (induction xs arbitrary: r cs vs k s)
  case Nil
  then show ?case by simp
next
  case (Cons x xs)
  from Cons.prems(1,2) obtain c cs' v vs' where cs: "cs = c # cs'" and vs: "vs = v # vs'"
    and st: "steady I c v" and rest: "list_all2 (steady I) cs' vs'"
    and len: "length cs' = length xs"
    by (cases cs; cases vs) auto
  have lenv: "length vs' = length xs"
    using rest len by (simp add: list_all2_lengthD [symmetric])
  obtain s' where c: "c s = (v, s')" and I': "I s'"
    using st \<open>I s\<close> by (cases "c s") (auto simp: steady_def)
  have shift: "\<forall>i \<in> set (walk_log A r' xs cs' (Suc k) t). \<exists>b. vs' ! (i - Suc k) = Inr b"
    if "\<forall>i \<in> set (walk_log A r' xs cs' (Suc k) t). \<exists>b. vs ! (i - k) = Inr b"
    for r' and t :: 's
  proof
    fix i assume i: "i \<in> set (walk_log A r' xs cs' (Suc k) t)"
    with walk_log_increasing [of A r' xs cs' "Suc k" t] have "Suc k \<le> i" by blast
    then have eq: "vs ! (i - k) = vs' ! (i - Suc k)" by (simp add: vs Suc_diff_le)
    from that i obtain b where "vs ! (i - k) = Inr b" by blast
    with eq have "vs' ! (i - Suc k) = Inr b" by simp
    then show "\<exists>b. vs' ! (i - Suc k) = Inr b" ..
  qed
  consider (skip) "x = A" "\<not> r" | (stop) "x \<noteq> A" "r" | (eval_and) "x = A" "r"
    | (eval_or) "x \<noteq> A" "\<not> r" by blast
  then show ?case
  proof cases
    case skip
    with Cons.prems(4) cs have "\<forall>i \<in> set (walk_log A r xs cs' (Suc k) s). \<exists>b. vs ! (i - k) = Inr b"
      by simp
    from Cons.IH [OF rest len \<open>I s\<close> shift [OF this]] skip cs vs lenv
    show ?thesis by (simp add: some_group_true_and)
  next
    case stop
    with vs show ?thesis by (simp add: some_group_true_or)
  next
    case eval_and
    with Cons.prems(4) cs c vs obtain b where b: "v = Inr b" by (cases v) auto
    with Cons.prems(4) cs c eval_and
    have "\<forall>i \<in> set (walk_log A b xs cs' (Suc k) s'). \<exists>b. vs ! (i - k) = Inr b" by simp
    from Cons.IH [OF rest len I' shift [OF this]] eval_and cs vs c b lenv
    show ?thesis by (simp add: some_group_true_and)
  next
    case eval_or
    with Cons.prems(4) cs c vs obtain b where b: "v = Inr b" by (cases v) auto
    with Cons.prems(4) cs c eval_or
    have "\<forall>i \<in> set (walk_log A b xs cs' (Suc k) s'). \<exists>b. vs ! (i - k) = Inr b" by simp
    from Cons.IH [OF rest len I' shift [OF this]] eval_or cs vs c b lenv
    show ?thesis by (simp add: some_group_true_or)
  qed
qed

subsection \<open>Predicates with one kind of operator\<close>

lemma steady_Cons:
  assumes "list_all2 (steady I) cs vs" and "length cs = Suc n" and "I s"
  shows "\<exists>c cs' v vs' s'. cs = c # cs' \<and> vs = v # vs' \<and>
    list_all2 (steady I) cs' vs' \<and> length cs' = n \<and> length vs' = n \<and>
    c s = (v, s') \<and> I s'"
proof -
  from assms(1,2) obtain c cs' v vs' where cs: "cs = c # cs'" and vs: "vs = v # vs'"
    and st: "steady I c v" and rest: "list_all2 (steady I) cs' vs'"
    and len: "length cs' = n"
    by (cases cs; cases vs) auto
  have lenv: "length vs' = n"
    using rest len by (simp add: list_all2_lengthD [symmetric])
  obtain s' where "c s = (v, s')" and "I s'"
    using st \<open>I s\<close> by (cases "c s") (auto simp: steady_def)
  with cs vs rest len lenv show ?thesis by blast
qed

lemma walk_only_and:
  fixes cs :: "'s ConditionBase list"
  assumes "list_all2 (steady I) cs vs" and "length cs = length xs" and "I s"
    and "\<forall>x \<in> set xs. x = A"
  shows "(fst (walk A r xs cs s) = Inr True) = (r \<and> (\<forall>v \<in> set vs. v = Inr True))"
  using assms
proof (induction xs arbitrary: r cs vs s)
  case Nil
  then show ?case by simp
next
  case (Cons x xs)
  from steady_Cons [OF Cons.prems(1) _ Cons.prems(3), of "length xs"] Cons.prems(2)
  obtain c cs' v vs' s' where cs: "cs = c # cs'" and vs: "vs = v # vs'"
    and rest: "list_all2 (steady I) cs' vs'" and len: "length cs' = length xs"
    and c: "c s = (v, s')" and I': "I s'"
    by auto
  from Cons.prems(4) have x: "x = A" and xs: "\<forall>x \<in> set xs. x = A" by auto
  note IH = Cons.IH [OF rest len _ xs]
  show ?case
  proof (cases r)
    case False
    with IH [OF \<open>I s\<close>, of False] x cs show ?thesis by simp
  next
    case True
    show ?thesis
    proof (cases v)
      case (Inl e)
      with True x cs vs c show ?thesis by simp
    next
      case (Inr b)
      with IH [OF I', of b] True x cs vs c show ?thesis by auto
    qed
  qed
qed

lemma walk_log_and_false:
  "\<forall>x \<in> set xs. x = A \<Longrightarrow> walk_log A False xs cs k s = []"
  by (induction xs arbitrary: cs k) auto

lemma walk_log_only_and:
  fixes cs :: "'s ConditionBase list"
  assumes "list_all2 (steady I) cs vs" and "length cs = length xs" and "I s"
    and "\<forall>x \<in> set xs. x = A" and "j < length vs" and "vs ! j = Inr False"
  shows "\<forall>i \<in> set (walk_log A r xs cs k s). i \<le> k + j"
  using assms
proof (induction xs arbitrary: r cs vs k s j)
  case Nil
  then show ?case by simp
next
  case (Cons x xs)
  from steady_Cons [OF Cons.prems(1) _ Cons.prems(3), of "length xs"] Cons.prems(2)
  obtain c cs' v vs' s' where cs: "cs = c # cs'" and vs: "vs = v # vs'"
    and rest: "list_all2 (steady I) cs' vs'" and len: "length cs' = length xs"
    and c: "c s = (v, s')" and I': "I s'"
    by auto
  from Cons.prems(4) have x: "x = A" and xs: "\<forall>x \<in> set xs. x = A" by auto
  show ?case
  proof (cases r)
    case False
    with x xs show ?thesis by (simp add: walk_log_and_false)
  next
    case True
    show ?thesis
    proof (cases v)
      case (Inl e)
      with True x cs c show ?thesis by simp
    next
      case (Inr b)
      show ?thesis
      proof (cases j)
        case 0
        with Cons.prems(6) vs Inr have "b = False" by simp
        with True x cs c Inr xs show ?thesis by (simp add: walk_log_and_false)
      next
        case (Suc j')
        with Cons.prems(5,6) vs have "j' < length vs'" and "vs' ! j' = Inr False" by auto
        from Cons.IH [OF rest len I' xs this, of b "Suc k"] True x cs c Inr Suc
        show ?thesis by simp
      qed
    qed
  qed
qed

lemma walk_only_or:
  fixes cs :: "'s ConditionBase list"
  assumes "list_all2 (steady I) cs vs" and "length cs = length xs" and "I s"
    and "\<forall>x \<in> set xs. x \<noteq> A"
  shows "(fst (walk A r xs cs s) = Inr True) =
         (r \<or> (\<exists>j < length vs. vs ! j = Inr True \<and> (\<forall>i < j. vs ! i = Inr False)))"
  using assms
proof (induction xs arbitrary: r cs vs s)
  case Nil
  then show ?case by simp
next
  case (Cons x xs)
  from steady_Cons [OF Cons.prems(1) _ Cons.prems(3), of "length xs"] Cons.prems(2)
  obtain c cs' v vs' s' where cs: "cs = c # cs'" and vs: "vs = v # vs'"
    and rest: "list_all2 (steady I) cs' vs'" and len: "length cs' = length xs"
    and c: "c s = (v, s')" and I': "I s'"
    by auto
  from Cons.prems(4) have x: "x \<noteq> A" and xs: "\<forall>x \<in> set xs. x \<noteq> A" by auto
  show ?case
  proof (cases r)
    case True
    with x show ?thesis by simp
  next
    case False
    show ?thesis
    proof (cases v)
      case (Inl e)
      with False x cs vs c show ?thesis
        by (simp add: Ex_less_Suc2 All_less_Suc2)
    next
      case (Inr b)
      with Cons.IH [OF rest len I' xs, of b] False x cs vs c show ?thesis
        by (cases b) (simp_all add: Ex_less_Suc2 All_less_Suc2)
    qed
  qed
qed

lemma walk_log_or_true:
  "\<forall>x \<in> set xs. x \<noteq> A \<Longrightarrow> walk_log A True xs cs k s = []"
  by (cases xs) auto

lemma walk_log_only_or:
  fixes cs :: "'s ConditionBase list"
  assumes "list_all2 (steady I) cs vs" and "length cs = length xs" and "I s"
    and "\<forall>x \<in> set xs. x \<noteq> A" and "j < length vs" and "vs ! j = Inr True"
  shows "\<forall>i \<in> set (walk_log A r xs cs k s). i \<le> k + j"
  using assms
proof (induction xs arbitrary: r cs vs k s j)
  case Nil
  then show ?case by simp
next
  case (Cons x xs)
  from steady_Cons [OF Cons.prems(1) _ Cons.prems(3), of "length xs"] Cons.prems(2)
  obtain c cs' v vs' s' where cs: "cs = c # cs'" and vs: "vs = v # vs'"
    and rest: "list_all2 (steady I) cs' vs'" and len: "length cs' = length xs"
    and c: "c s = (v, s')" and I': "I s'"
    by auto
  from Cons.prems(4) have x: "x \<noteq> A" and xs: "\<forall>x \<in> set xs. x \<noteq> A" by auto
  show ?case
  proof (cases r)
    case True
    with x show ?thesis by simp
  next
    case False
    show ?thesis
    proof (cases v)
      case (Inl e)
      with False x cs c show ?thesis by simp
    next
      case (Inr b)
      show ?thesis
      proof (cases j)
        case 0
        with Cons.prems(6) vs Inr have "b = True" by simp
        with False x cs c Inr xs show ?thesis by (simp add: walk_log_or_true)
      next
        case (Suc j')
        with Cons.prems(5,6) vs have "j' < length vs'" and "vs' ! j' = Inr True" by auto
        from Cons.IH [OF rest len I' xs this, of b "Suc k"] False x cs c Inr Suc
        show ?thesis by simp
      qed
    qed
  qed
qed

subsection \<open>The conditions of the programs\<close>

lemma Condition_int_eval_shape:
  "Condition_int_eval column op v (h, row) =
   ((case row_at row (fst (header_index h column)) of
       Inl e \<Rightarrow> Inl e
     | Inr cell \<Rightarrow>
         (case stoi cell of
            Inl x \<Rightarrow> Inr False
          | Inr n \<Rightarrow> Inr (Condition_switch builtin_compare op n v))),
    (snd (header_index h column), row))"
  unfolding Condition_int_eval_def Condition_eval_T_def getColumnValue_int_def
  by (simp split: prod.split sum.split exn.split)

lemma Condition_float_eval_shape:
  "Condition_float_eval F column op v (h, row) =
   ((case row_at row (fst (header_index h column)) of
       Inl e \<Rightarrow> Inl e
     | Inr cell \<Rightarrow>
         (case stod F cell of
            Inl x \<Rightarrow> Inr False
          | Inr n \<Rightarrow> Inr (Condition_switch (float_compare F) op n v))),
    (snd (header_index h column), row))"
  unfolding Condition_float_eval_def Condition_eval_T_def getColumnValue_float_def
  by (simp split: prod.split sum.split exn.split)

lemma Condition_string_eval_shape:
  "Condition_string_eval column op v (h, row) =
   ((case row_at row (fst (header_index h column)) of
       Inl e \<Rightarrow> Inl e
     | Inr cell \<Rightarrow> Inr (Condition_switch builtin_compare op cell v)),
    (snd (header_index h column), row))"
  unfolding Condition_string_eval_def Condition_eval_T_def getColumnValue_string_def
  by (simp split: prod.split sum.split)

lemma Condition_eval_shape:
  "Condition_eval F c (h, row) =
   ((case row_at row (fst (header_index h (column_of c))) of
       Inl e \<Rightarrow> Inl e
     | Inr cell \<Rightarrow> compared F c cell),
    (snd (header_index h (column_of c)), row))"
  unfolding Condition_eval_def compared_def
  by (cases "value_of c")
     (simp_all add: Condition_int_eval_shape Condition_float_eval_shape
        Condition_string_eval_shape cong: sum.case_cong)

lemma Condition_int_eval_wcpp_shape:
  "Condition_int_eval_wcpp column op v (h, row) =
   ((case row_at row (fst (header_index h column)) of
       Inl e \<Rightarrow> Inl e
     | Inr cell \<Rightarrow>
         (case stoi cell of
            Inl x \<Rightarrow> Inl (Throw x)
          | Inr n \<Rightarrow> Inr (Condition_switch_wcpp builtin_compare op n v))),
    (snd (header_index h column), row))"
  unfolding Condition_int_eval_wcpp_def
  by (simp split: prod.split sum.split)

lemma Condition_float_eval_wcpp_shape:
  "Condition_float_eval_wcpp F column op v (h, row) =
   ((case row_at row (fst (header_index h column)) of
       Inl e \<Rightarrow> Inl e
     | Inr cell \<Rightarrow>
         (case stod F cell of
            Inl x \<Rightarrow> Inl (Throw x)
          | Inr n \<Rightarrow> Inr (Condition_switch_wcpp (float_compare F) op n v))),
    (snd (header_index h column), row))"
  unfolding Condition_float_eval_wcpp_def
  by (simp split: prod.split sum.split)

lemma Condition_string_eval_wcpp_shape:
  "Condition_string_eval_wcpp column op v (h, row) =
   ((case row_at row (fst (header_index h column)) of
       Inl e \<Rightarrow> Inl e
     | Inr cell \<Rightarrow> Inr (Condition_switch_wcpp builtin_compare op cell v)),
    (snd (header_index h column), row))"
  unfolding Condition_string_eval_wcpp_def
  by (simp split: prod.split sum.split)

lemma Condition_eval_wcpp_shape:
  "Condition_eval_wcpp F c (h, row) =
   ((case row_at row (fst (header_index h (column_of c))) of
       Inl e \<Rightarrow> Inl e
     | Inr cell \<Rightarrow> compared_wcpp F c cell),
    (snd (header_index h (column_of c)), row))"
  unfolding Condition_eval_wcpp_def compared_wcpp_def
  by (cases "value_of c")
     (simp_all add: Condition_int_eval_wcpp_shape Condition_float_eval_wcpp_shape
        Condition_string_eval_wcpp_shape cong: sum.case_cong)

lemma Condition_eval_store:
  "snd (Condition_eval F c (h, row)) = (snd (header_index h (column_of c)), row)"
  by (simp add: Condition_eval_shape)

lemma Condition_eval_wcpp_store:
  "snd (Condition_eval_wcpp F c (h, row)) = (snd (header_index h (column_of c)), row)"
  by (simp add: Condition_eval_wcpp_shape)

lemma Condition_eval_index:
  "fst (header_index h' (column_of c)) = fst (header_index h (column_of c)) \<Longrightarrow>
   fst (Condition_eval F c (h', row)) = fst (Condition_eval F c (h, row))"
  by (simp add: Condition_eval_shape)

lemma Condition_eval_wcpp_index:
  "fst (header_index h' (column_of c)) = fst (header_index h (column_of c)) \<Longrightarrow>
   fst (Condition_eval_wcpp F c (h', row)) = fst (Condition_eval_wcpp F c (h, row))"
  by (simp add: Condition_eval_wcpp_shape)

lemma grown_refl: "grown h h"
  by (simp add: grown_def)

lemma grown_header_index:
  assumes "grown h h'"
  shows "fst (header_index h' column) = fst (header_index h column)"
    and "grown h (snd (header_index h' column))"
proof -
  from assms have k: "h' k = h k \<or> (h k = None \<and> h' k = Some 0)" for k
    by (simp add: grown_def)
  from k [of column] show "fst (header_index h' column) = fst (header_index h column)"
    by (auto simp: header_index_def split: option.splits)
  show "grown h (snd (header_index h' column))"
    unfolding grown_def
  proof
    fix k
    from k [of k] k [of column]
    show "snd (header_index h' column) k = h k \<or>
          (h k = None \<and> snd (header_index h' column) k = Some 0)"
      by (auto simp: header_index_def split: option.splits)
  qed
qed

lemma Condition_eval_steady:
  "steady (\<lambda>t. grown h (fst t) \<and> snd t = row) (Condition_eval F c)
     (fst (Condition_eval F c (h, row)))"
  unfolding steady_def
proof (intro allI impI)
  fix t :: store
  assume "grown h (fst t) \<and> snd t = row"
  then obtain h' where t: "t = (h', row)" and g: "grown h h'" by (cases t) auto
  note gi = grown_header_index [OF g, of "column_of c"]
  from gi(2) Condition_eval_index [OF gi(1), of F row]
  show "fst (Condition_eval F c t) = fst (Condition_eval F c (h, row)) \<and>
        grown h (fst (snd (Condition_eval F c t))) \<and> snd (snd (Condition_eval F c t)) = row"
    by (simp add: t Condition_eval_store)
qed

lemma Condition_eval_wcpp_steady:
  "steady (\<lambda>t. grown h (fst t) \<and> snd t = row) (Condition_eval_wcpp F c)
     (fst (Condition_eval_wcpp F c (h, row)))"
  unfolding steady_def
proof (intro allI impI)
  fix t :: store
  assume "grown h (fst t) \<and> snd t = row"
  then obtain h' where t: "t = (h', row)" and g: "grown h h'" by (cases t) auto
  note gi = grown_header_index [OF g, of "column_of c"]
  from gi(2) Condition_eval_wcpp_index [OF gi(1), of F row]
  show "fst (Condition_eval_wcpp F c t) = fst (Condition_eval_wcpp F c (h, row)) \<and>
        grown h (fst (snd (Condition_eval_wcpp F c t))) \<and>
        snd (snd (Condition_eval_wcpp F c t)) = row"
    by (simp add: t Condition_eval_wcpp_store)
qed

lemma Conditions_steady:
  "list_all2 (steady (\<lambda>t. grown h (fst t) \<and> snd t = row))
     (map (Condition_eval F) cs) (map (\<lambda>c. fst (Condition_eval F c (h, row))) cs)"
  by (simp add: list_all2_map1 list_all2_map2 list_all2_same Condition_eval_steady)

lemma Conditions_wcpp_steady:
  "list_all2 (steady (\<lambda>t. grown h (fst t) \<and> snd t = row))
     (map (Condition_eval_wcpp F) cs) (map (\<lambda>c. fst (Condition_eval_wcpp F c (h, row))) cs)"
  by (simp add: list_all2_map1 list_all2_map2 list_all2_same Condition_eval_wcpp_steady)

lemma lookup_succeeds:
  assumes "referenced_cell h row column = Some cell"
  shows "header_index h column = (the (h column), h)"
    and "row_at row (the (h column)) = Inr cell"
  using assms
  by (auto simp: referenced_cell_def header_index_def split: option.splits sum.splits)

lemma Condition_eval_succeeds:
  assumes "lookup_and_conversion_succeed F c s"
  shows "\<exists>b. Condition_eval F c s = (Inr b, s)"
    and "\<exists>b. Condition_eval_wcpp F c s = (Inr b, s)"
proof -
  obtain h row where s: "s = (h, row)" by (cases s)
  from assms obtain cell where cell: "referenced_cell h row (column_of c) = Some cell"
    and conv: "converts F (value_of c) cell"
    by (auto simp: lookup_and_conversion_succeed_def s split: option.splits)
  note l = lookup_succeeds [OF cell]
  from conv show "\<exists>b. Condition_eval F c s = (Inr b, s)"
    by (cases "value_of c")
       (auto simp: s Condition_eval_shape l compared_def converts_def split: sum.splits)
  from conv show "\<exists>b. Condition_eval_wcpp F c s = (Inr b, s)"
    by (cases "value_of c")
       (auto simp: s Condition_eval_wcpp_shape l compared_wcpp_def converts_def
          split: sum.splits)
qed

lemma Condition_eval_in_bounds:
  "fst (Condition_eval F c s) \<noteq> Inl conditions_out_of_bounds"
  "fst (Condition_eval_wcpp F c s) \<noteq> Inl conditions_out_of_bounds"
proof -
  obtain h row where s: "s = (h, row)" by (cases s)
  show "fst (Condition_eval F c s) \<noteq> Inl conditions_out_of_bounds"
    by (cases "value_of c")
       (auto simp: s Condition_eval_shape compared_def row_at_def split: sum.splits)
  show "fst (Condition_eval_wcpp F c s) \<noteq> Inl conditions_out_of_bounds"
    by (cases "value_of c")
       (auto simp: s Condition_eval_wcpp_shape compared_wcpp_def row_at_def split: sum.splits)
qed

subsection \<open>The trace and the first step\<close>

lemma traced_forget:
  "fst (Where_eval (traced 0 cs) ops (s, l)) = fst (Where_eval cs ops s)"
  "fst (snd (Where_eval (traced 0 cs) ops (s, l))) = snd (Where_eval cs ops s)"
  "fst (Where_eval_wcpp (traced 0 cs) ops 0 (s, l)) = fst (Where_eval_wcpp cs ops 0 s)"
  "fst (snd (Where_eval_wcpp (traced 0 cs) ops 0 (s, l))) = snd (Where_eval_wcpp cs ops 0 s)"
  unfolding Where_eval_walk Where_eval_wcpp_walk walk_traced by simp_all

lemma OR_not_AND: "Operator_OR \<noteq> Operator_AND" "Where_OR \<noteq> Where_AND"
  by (simp_all add: Operator_defs ConditionBase_defs)

lemma and_groups_map: "and_groups A (map f cs) xs = map (map f) (and_groups A cs xs)"
  by (induction A cs xs rule: and_groups.induct) (auto split: list.splits)

lemma some_group_true_map:
  "some_group_true A (map f cs) xs = (\<exists>g \<in> set (and_groups A cs xs). \<forall>c \<in> set g. f c)"
  by (auto simp: some_group_true_def and_groups_map)

lemma walk_first_groups:
  fixes E :: "'c \<Rightarrow> 's ConditionBase"
  assumes len: "length cs = Suc (length ops)" and B: "B \<noteq> A"
    and st: "list_all2 (steady I) (map E cs) (map (\<lambda>c. fst (E c s)) cs)" and I: "I s"
    and ok: "\<forall>i \<in> set (walk_log A False (B # ops) (map E cs) 0 s). \<exists>b. fst (E (cs ! i) s) = Inr b"
  shows "fst (walk A False (B # ops) (map E cs) s) =
         Inr (\<exists>g \<in> set (and_groups A cs ops). \<forall>c \<in> set g. fst (E c s) = Inr True)"
proof -
  let ?vs = "map (\<lambda>c. fst (E c s)) cs"
  have "\<forall>i \<in> set (walk_log A False (B # ops) (map E cs) 0 s). \<exists>b. ?vs ! (i - 0) = Inr b"
  proof
    fix i assume i: "i \<in> set (walk_log A False (B # ops) (map E cs) 0 s)"
    with walk_log_increasing [of A False "B # ops" "map E cs" 0 s] have "i < length cs" by auto
    with ok i show "\<exists>b. ?vs ! (i - 0) = Inr b" by simp
  qed
  from walk_groups [OF st _ I this] len
  have "fst (walk A False (B # ops) (map E cs) s) =
        Inr (some_group_true A (False # map (\<lambda>v. v = Inr True) ?vs) (B # ops))" by simp
  also from len obtain c cs' where "cs = c # cs'" by (cases cs) auto
  then have "some_group_true A (False # map (\<lambda>v. v = Inr True) ?vs) (B # ops) =
             some_group_true A (map (\<lambda>c. fst (E c s) = Inr True) cs) ops"
    using B by (simp add: some_group_true_or o_def)
  finally show ?thesis by (simp add: some_group_true_map)
qed

lemma walk_first_only_and:
  fixes E :: "'c \<Rightarrow> 's ConditionBase"
  assumes len: "length cs = Suc (length ops)" and B: "B \<noteq> A"
    and st: "list_all2 (steady I) (map E cs) (map (\<lambda>c. fst (E c s)) cs)" and I: "I s"
    and ands: "\<forall>x \<in> set ops. x = A"
  shows "(fst (walk A False (B # ops) (map E cs) s) = Inr True) =
         (\<forall>c \<in> set cs. fst (E c s) = Inr True)"
    and "k < length cs \<Longrightarrow> fst (E (cs ! k) s) = Inr False \<Longrightarrow>
         \<forall>i \<in> set (walk_log A False (B # ops) (map E cs) 0 s). i \<le> k"
proof -
  from steady_Cons [OF st _ I, of "length ops"] len
  obtain c cs' v vs' s' where cs: "map E cs = c # cs'"
    and vs: "map (\<lambda>c. fst (E c s)) cs = v # vs'"
    and rest: "list_all2 (steady I) cs' vs'" and len': "length cs' = length ops"
    and c: "c s = (v, s')" and I': "I s'"
    by auto
  have set_vs: "(\<forall>c \<in> set cs. fst (E c s) = Inr True) = (\<forall>u \<in> set (v # vs'). u = Inr True)"
    unfolding vs [symmetric] by auto
  show "(fst (walk A False (B # ops) (map E cs) s) = Inr True) =
         (\<forall>c \<in> set cs. fst (E c s) = Inr True)"
  proof (cases v)
    case (Inl e)
    with B cs c show ?thesis unfolding set_vs by simp
  next
    case (Inr b)
    with walk_only_and [OF rest len' I' ands, of b] B cs c show ?thesis
      unfolding set_vs by auto
  qed
  assume k: "k < length cs" and f: "fst (E (cs ! k) s) = Inr False"
  from k f have vk: "(v # vs') ! k = Inr False"
    unfolding vs [symmetric] by simp
  show "\<forall>i \<in> set (walk_log A False (B # ops) (map E cs) 0 s). i \<le> k"
  proof (cases v)
    case (Inl e)
    with B cs c show ?thesis by simp
  next
    case (Inr b)
    show ?thesis
    proof (cases k)
      case 0
      with vk Inr have "b = False" by simp
      with B cs c Inr ands 0 show ?thesis by (simp add: walk_log_and_false)
    next
      case (Suc k')
      with vk k vs have "k' < length vs'" and "vs' ! k' = Inr False"
        by (auto simp: length_Suc_conv dest: arg_cong [where f = length])
      from walk_log_only_and [OF rest len' I' ands this, of b 1] B cs c Inr Suc
      show ?thesis by simp
    qed
  qed
qed

lemma walk_first_only_or:
  fixes E :: "'c \<Rightarrow> 's ConditionBase"
  assumes len: "length cs = Suc (length ops)" and B: "B \<noteq> A"
    and st: "list_all2 (steady I) (map E cs) (map (\<lambda>c. fst (E c s)) cs)" and I: "I s"
    and ors: "\<forall>x \<in> set ops. x \<noteq> A"
  shows "(fst (walk A False (B # ops) (map E cs) s) = Inr True) =
         (\<exists>k < length cs. fst (E (cs ! k) s) = Inr True \<and>
            (\<forall>j < k. fst (E (cs ! j) s) = Inr False))"
    and "k < length cs \<Longrightarrow> fst (E (cs ! k) s) = Inr True \<Longrightarrow>
         \<forall>i \<in> set (walk_log A False (B # ops) (map E cs) 0 s). i \<le> k"
proof -
  from B ors have all: "\<forall>x \<in> set (B # ops). x \<noteq> A" by simp
  from len have len': "length (map E cs) = length (B # ops)" by simp
  let ?vs = "map (\<lambda>c. fst (E c s)) cs"
  have "(\<exists>j < length ?vs. ?vs ! j = Inr True \<and> (\<forall>i < j. ?vs ! i = Inr False)) =
        (\<exists>k < length cs. fst (E (cs ! k) s) = Inr True \<and>
            (\<forall>j < k. fst (E (cs ! j) s) = Inr False))"
    by (intro ex_cong1) (auto simp: nth_map)
  with walk_only_or [OF st len' I all, of False]
  show "(fst (walk A False (B # ops) (map E cs) s) = Inr True) =
         (\<exists>k < length cs. fst (E (cs ! k) s) = Inr True \<and>
            (\<forall>j < k. fst (E (cs ! j) s) = Inr False))"
    by simp
  assume k: "k < length cs" and t: "fst (E (cs ! k) s) = Inr True"
  then have "k < length ?vs" and "?vs ! k = Inr True" by simp_all
  from walk_log_only_or [OF st len' I all this, of False 0]
  show "\<forall>i \<in> set (walk_log A False (B # ops) (map E cs) 0 s). i \<le> k" by simp
qed

lemma fold_store:
  assumes "\<And>c h row. snd (E c (h, row)) = (snd (header_index h (column_of c)), row)"
    and "\<forall>i \<in> set l. i < length cs"
  shows "fold (\<lambda>i t. snd ((map E cs ! (i - 0)) t)) l (h, row) =
         (fold (\<lambda>i h'. snd (header_index h' (column_of (cs ! i)))) l h, row)"
  using assms(2) by (induction l arbitrary: h) (simp_all add: assms(1))

lemma fold_present:
  "\<forall>i \<in> set l. h (column_of (cs ! i)) \<noteq> None \<Longrightarrow>
   fold (\<lambda>i h'. snd (header_index h' (column_of (cs ! i)))) l h = h"
  by (induction l) (auto simp: header_index_def)

lemma walk_store:
  fixes cs :: "'f Condition list"
  assumes "\<And>c h row. snd (E c (h, row)) = (snd (header_index h (column_of c)), row)"
  shows "snd (walk A r xs (map E cs) (h, row)) =
         (fold (\<lambda>i h'. snd (header_index h' (column_of (cs ! i))))
            (walk_log A r xs (map E cs) 0 (h, row)) h, row)"
proof -
  have "\<forall>i \<in> set (walk_log A r xs (map E cs) 0 (h, row)). i < length cs"
    using walk_log_increasing [of A r xs "map E cs" 0 "(h, row)"] by simp
  from fold_store [of E, OF assms this] show ?thesis
    by (simp only: walk_effect [of A r xs "map E cs" "(h, row)" 0])
qed

lemma isdigit_plain: "isdigit d \<Longrightarrow> \<not> isspace d \<and> d \<noteq> CHR ''-'' \<and> d \<noteq> CHR ''+''"
  by (auto simp: isdigit_def isspace_def)

lemma stoi_ignores_rest:
  assumes "ds \<noteq> []" and "\<forall>d \<in> set ds. isdigit d" and "\<not> isdigit x"
  shows "stoi (ds @ x # rest) = stoi ds"
proof -
  from assms(1) obtain d ds' where ds: "ds = d # ds'" by (cases ds) auto
  with assms(2) have d: "isdigit d" by simp
  note p = isdigit_plain [OF d]
  have t1: "takeWhile isdigit (ds @ x # rest) = ds"
    using assms(2,3) by (simp add: takeWhile_append2)
  have t2: "takeWhile isdigit ds = ds"
    using assms(2) by (simp add: takeWhile_eq_all_conv)
  have d1: "dropWhile isspace (ds @ x # rest) = ds @ x # rest"
    and d2: "dropWhile isspace ds = ds"
    using p by (simp_all add: ds)
  have h1: "hd (ds @ x # rest) = d" and h2: "hd ds = d" by (simp_all add: ds)
  show ?thesis
    unfolding stoi_def d1 d2 Let_def h1 h2 using p assms(1)
    by (simp add: t1 t2)
qed

section \<open>The claims\<close>

lemmas eval_defs =
  Condition_eval_def Condition_int_eval_def Condition_float_eval_def Condition_string_eval_def
  Condition_eval_T_def getColumnValue_int_def getColumnValue_float_def getColumnValue_string_def
  Condition_eval_wcpp_def Condition_int_eval_wcpp_def Condition_float_eval_wcpp_def
  Condition_string_eval_wcpp_def Condition_switch_def Condition_switch_wcpp_def
  builtin_compare_def header_index_def row_at_def
  stoi_def isspace_def isdigit_def decimal_def digit_value_def
  Operator_defs ConditionBase_defs
  main_header_def John_Doe_def Jenny_Ho_def Bill_Gates_def
  referenced_cell_def converts_def lookup_and_conversion_succeed_def

text \<open>
  C1. For every predicate with \<open>N \<ge> 1\<close> conditions and \<open>N - 1\<close> operators, and every
  header and row for which the lookup and the conversion of each condition that is
  evaluated succeed, \<^verbatim>\<open>Where::eval\<close> returns true if and only if at least one run of
  conditions joined by AND (the runs being separated by OR) holds only conditions that
  evaluate to true. It is proved of the loop of \<^verbatim>\<open>part_000\<close> and of the recursion of
  \<^verbatim>\<open>src/where.cpp\<close>; the conditions evaluated are those the program itself calls.
\<close>

theorem Where_eval_and_groups:
  assumes "length cs = Suc (length ops)"
  shows
    "((\<forall>i \<in> set (Where_evaluated (map (Condition_eval F) cs) ops s).
         lookup_and_conversion_succeed F (cs ! i) s) \<longrightarrow>
      fst (Where_eval (map (Condition_eval F) cs) ops s) =
      Inr (\<exists>g \<in> set (and_groups Operator_AND cs ops).
             \<forall>c \<in> set g. fst (Condition_eval F c s) = Inr True)) \<and>
     ((\<forall>i \<in> set (Where_evaluated_wcpp (map (Condition_eval_wcpp F) cs) ops s).
         lookup_and_conversion_succeed F (cs ! i) s) \<longrightarrow>
      fst (Where_eval_wcpp (map (Condition_eval_wcpp F) cs) ops 0 s) =
      Inr (\<exists>g \<in> set (and_groups Where_AND cs ops).
             \<forall>c \<in> set g. fst (Condition_eval_wcpp F c s) = Inr True))"
proof (intro conjI impI)
  obtain h row where s: "s = (h, row)" by (cases s)
  let ?I = "\<lambda>t. grown h (fst t) \<and> snd t = row"
  have I: "?I s" by (simp add: s grown_refl)
  {
    assume "\<forall>i \<in> set (Where_evaluated (map (Condition_eval F) cs) ops s).
              lookup_and_conversion_succeed F (cs ! i) s"
    then have "\<forall>i \<in> set (walk_log Operator_AND False (Operator_OR # ops)
                  (map (Condition_eval F) cs) 0 s).
               \<exists>b. fst (Condition_eval F (cs ! i) s) = Inr b"
      using Condition_eval_succeeds(1) [of F _ s] by (fastforce simp: Where_evaluated_walk)
    from walk_first_groups
      [OF assms OR_not_AND(1) Conditions_steady [of h row F cs, folded s] I this]
    show "fst (Where_eval (map (Condition_eval F) cs) ops s) =
      Inr (\<exists>g \<in> set (and_groups Operator_AND cs ops).
             \<forall>c \<in> set g. fst (Condition_eval F c s) = Inr True)"
      unfolding Where_eval_walk .
  }
  {
    assume "\<forall>i \<in> set (Where_evaluated_wcpp (map (Condition_eval_wcpp F) cs) ops s).
              lookup_and_conversion_succeed F (cs ! i) s"
    then have "\<forall>i \<in> set (walk_log Where_AND False (Where_OR # ops)
                  (map (Condition_eval_wcpp F) cs) 0 s).
               \<exists>b. fst (Condition_eval_wcpp F (cs ! i) s) = Inr b"
      using Condition_eval_succeeds(2) [of F _ s] by (fastforce simp: Where_evaluated_wcpp_walk)
    from walk_first_groups
      [OF assms OR_not_AND(2) Conditions_wcpp_steady [of h row F cs, folded s] I this]
    show "fst (Where_eval_wcpp (map (Condition_eval_wcpp F) cs) ops 0 s) =
      Inr (\<exists>g \<in> set (and_groups Where_AND cs ops).
             \<forall>c \<in> set g. fst (Condition_eval_wcpp F c s) = Inr True)"
      unfolding Where_eval_wcpp_walk .
  }
qed

text \<open>
  The predicate \<^verbatim>\<open>name != "Bill Gates" AND age > 60 OR gender = "female" AND age <= 30
  OR company = "IBX"\<close> on the row of Jenny Ho: the second run is true, and the last
  condition is not evaluated.
\<close>

theorem Where_eval_and_groups_witness:
  "Where_evaluated
     [Condition_string_eval ''name'' Operator_NE ''Bill Gates'',
      Condition_int_eval ''age'' Operator_GT 60,
      Condition_string_eval ''gender'' Operator_EQ ''female'',
      Condition_int_eval ''age'' Operator_LE 30,
      Condition_string_eval ''company'' Operator_EQ ''IBX'']
     [Operator_AND, Operator_OR, Operator_AND, Operator_OR] (main_header, Jenny_Ho)
     = [0, 1, 2, 3] \<and>
   referenced_cell main_header Jenny_Ho ''age'' = Some ''21'' \<and> stoi ''21'' = Inr 21 \<and>
   fst (Where_eval
     [Condition_string_eval ''name'' Operator_NE ''Bill Gates'',
      Condition_int_eval ''age'' Operator_GT 60,
      Condition_string_eval ''gender'' Operator_EQ ''female'',
      Condition_int_eval ''age'' Operator_LE 30,
      Condition_string_eval ''company'' Operator_EQ ''IBX'']
     [Operator_AND, Operator_OR, Operator_AND, Operator_OR] (main_header, Jenny_Ho))
     = Inr True \<and>
   Where_evaluated_wcpp
     [Condition_string_eval_wcpp ''name'' ConditionBase_NE ''Bill Gates'',
      Condition_int_eval_wcpp ''age'' ConditionBase_GT 60,
      Condition_string_eval_wcpp ''gender'' ConditionBase_EQ ''female'',
      Condition_int_eval_wcpp ''age'' ConditionBase_LE 30,
      Condition_string_eval_wcpp ''company'' ConditionBase_EQ ''IBX'']
     [Where_AND, Where_OR, Where_AND, Where_OR] (main_header, Jenny_Ho)
     = [0, 1, 2, 3] \<and>
   fst (Where_eval_wcpp
     [Condition_string_eval_wcpp ''name'' ConditionBase_NE ''Bill Gates'',
      Condition_int_eval_wcpp ''age'' ConditionBase_GT 60,
      Condition_string_eval_wcpp ''gender'' ConditionBase_EQ ''female'',
      Condition_int_eval_wcpp ''age'' ConditionBase_LE 30,
      Condition_string_eval_wcpp ''company'' ConditionBase_EQ ''IBX'']
     [Where_AND, Where_OR, Where_AND, Where_OR] 0 (main_header, Jenny_Ho))
     = Inr True"
proof -
  fix F :: "unit float_t"
  let ?cs = "[Condition ''name'' Operator_NE (String_value ''Bill Gates''),
      Condition ''age'' Operator_GT (Int_value 60),
      Condition ''gender'' Operator_EQ (String_value ''female''),
      Condition ''age'' Operator_LE (Int_value 30),
      Condition ''company'' Operator_EQ (String_value ''IBX'')] :: unit Condition list"
  note thm1 = Where_eval_and_groups [of ?cs "[Operator_AND, Operator_OR, Operator_AND, Operator_OR]"
      F "(main_header, Jenny_Ho)"]
  note thm2 = Where_eval_and_groups [of ?cs "[Where_AND, Where_OR, Where_AND, Where_OR]"
      F "(main_header, Jenny_Ho)"]
  from thm1 thm2 show ?thesis
    by (simp add: Where_evaluated_walk Where_evaluated_wcpp_walk Where_eval_walk
          Where_eval_wcpp_walk eval_defs)
qed

text \<open>
  C2, as amended. For a condition of \<^verbatim>\<open>part_000\<close> that carries an integer or a floating
  point literal and whose cell exists: \<^verbatim>\<open>Condition::eval\<close> returns false, and raises
  nothing, when \<^verbatim>\<open>std::stoi\<close> or \<^verbatim>\<open>std::stod\<close> throws on the cell; otherwise it compares
  the number the conversion returns, and the header and the row are unchanged.
  \<^verbatim>\<open>std::stoi\<close> does not ask the cell to be a number to its end: what follows the
  leading digits is ignored.
\<close>

theorem Condition_eval_conversion:
  assumes "referenced_cell h row (column_of c) = Some cell"
  shows
    "(\<forall>v. value_of c = Int_value v \<longrightarrow>
        Condition_eval F c (h, row) =
        (Inr (case stoi cell of
                Inl x \<Rightarrow> False
              | Inr n \<Rightarrow> Condition_switch builtin_compare (op_of c) n v), (h, row))) \<and>
     (\<forall>v. value_of c = Float_value v \<longrightarrow>
        Condition_eval F c (h, row) =
        (Inr (case stod F cell of
                Inl x \<Rightarrow> False
              | Inr n \<Rightarrow> Condition_switch (float_compare F) (op_of c) n v), (h, row))) \<and>
     (\<forall>ds x rest. ds \<noteq> [] \<and> (\<forall>d \<in> set ds. isdigit d) \<and> \<not> isdigit x \<longrightarrow>
        stoi (ds @ x # rest) = stoi ds)"
proof -
  note l = lookup_succeeds [OF assms]
  show ?thesis
    by (auto simp: Condition_eval_shape l compared_def stoi_ignores_rest split: sum.splits)
qed

text \<open>
  The name of John Doe has no leading number, so an integer condition on it is false;
  the score \<^verbatim>\<open>110.5\<close> converts as \<^verbatim>\<open>110\<close> does.
\<close>

theorem Condition_eval_conversion_witness:
  "referenced_cell main_header John_Doe ''name'' = Some ''John Doe'' \<and>
   stoi ''John Doe'' = Inl invalid_argument \<and>
   Condition_int_eval ''name'' Operator_EQ 5 (main_header, John_Doe)
     = (Inr False, (main_header, John_Doe)) \<and>
   stoi ''110.5'' = stoi ''110''"
proof -
  fix F :: "unit float_t"
  note thm1 = Condition_eval_conversion
    [of main_header John_Doe "Condition ''name'' Operator_EQ (Int_value 5)" "''John Doe''" F]
  from thm1 show ?thesis by (simp add: eval_defs)
qed

text \<open>
  The claim as stated fails: the score \<^verbatim>\<open>110.5\<close> of John Doe is not an integer to its
  end, yet the integer condition \<^verbatim>\<open>score > 100\<close> is true of it; and in
  \<^verbatim>\<open>src/where.cpp\<close> a cell with no number raises \<^verbatim>\<open>std::invalid_argument\<close>.
\<close>

theorem Condition_eval_conversion_counterexample:
  "referenced_cell main_header John_Doe ''score'' = Some ''110.5'' \<and>
   stoi ''110.5'' = Inr 110 \<and>
   fst (Condition_int_eval ''score'' Operator_GT 100 (main_header, John_Doe)) = Inr True \<and>
   fst (Condition_int_eval_wcpp ''name'' ConditionBase_EQ 5 (main_header, John_Doe))
     = Inl (Throw invalid_argument)"
  by (simp add: eval_defs)

text \<open>
  In \<^verbatim>\<open>src/where.cpp\<close> the same condition compares the converted number as well, but
  what the conversion throws reaches the caller.
\<close>

lemma Condition_eval_wcpp_conversion:
  assumes "referenced_cell h row (column_of c) = Some cell"
  shows
    "(\<forall>v. value_of c = Int_value v \<longrightarrow>
        Condition_eval_wcpp F c (h, row) =
        ((case stoi cell of
            Inl x \<Rightarrow> Inl (Throw x)
          | Inr n \<Rightarrow> Inr (Condition_switch_wcpp builtin_compare (op_of c) n v)), (h, row))) \<and>
     (\<forall>v. value_of c = Float_value v \<longrightarrow>
        Condition_eval_wcpp F c (h, row) =
        ((case stod F cell of
            Inl x \<Rightarrow> Inl (Throw x)
          | Inr n \<Rightarrow> Inr (Condition_switch_wcpp (float_compare F) (op_of c) n v)), (h, row)))"
proof -
  note l = lookup_succeeds [OF assms]
  show ?thesis
    by (auto simp: Condition_eval_wcpp_shape l compared_wcpp_def split: sum.splits)
qed

text \<open>
  C3, as amended. For a condition whose column name is absent from the header, no
  error is reported: \<^verbatim>\<open>header[column]\<close> inserts the name with the index 0, and the
  condition is evaluated exactly as if the header had bound the name to 0, that is
  against the first cell of the row. With a row that is not empty, the condition of
  \<^verbatim>\<open>part_000\<close> returns a boolean and the one of \<^verbatim>\<open>src/where.cpp\<close> reads inside the row.
\<close>

theorem Condition_eval_absent_column:
  assumes "h (column_of c) = None"
  shows
    "Condition_eval F c (h, row) = Condition_eval F c (h(column_of c \<mapsto> 0), row) \<and>
     snd (Condition_eval F c (h, row)) = (h(column_of c \<mapsto> 0), row) \<and>
     (row \<noteq> [] \<longrightarrow> (\<exists>b. fst (Condition_eval F c (h, row)) = Inr b)) \<and>
     Condition_eval_wcpp F c (h, row) = Condition_eval_wcpp F c (h(column_of c \<mapsto> 0), row) \<and>
     snd (Condition_eval_wcpp F c (h, row)) = (h(column_of c \<mapsto> 0), row) \<and>
     (row \<noteq> [] \<longrightarrow> fst (Condition_eval_wcpp F c (h, row)) \<noteq> Inl row_out_of_bounds)"
proof -
  from assms have i: "header_index h (column_of c) = (0, h(column_of c \<mapsto> 0))"
    and j: "header_index (h(column_of c \<mapsto> 0)) (column_of c) = (0, h(column_of c \<mapsto> 0))"
    by (simp_all add: header_index_def)
  have r: "row \<noteq> [] \<Longrightarrow> row_at row 0 = Inr (row ! 0)"
    by (simp add: row_at_def)
  have b: "\<exists>b. compared F c cell = Inr b" for cell
    by (cases "value_of c") (auto simp: compared_def split: sum.splits)
  have w: "compared_wcpp F c cell \<noteq> Inl row_out_of_bounds" for cell
    by (cases "value_of c") (auto simp: compared_wcpp_def split: sum.splits)
  show ?thesis
    using b w by (auto simp: Condition_eval_shape Condition_eval_wcpp_shape i j r)
qed

text \<open>
  The column \<^verbatim>\<open>city\<close> is not in the header of \<^verbatim>\<open>main\<close>: the condition
  \<^verbatim>\<open>city = "Jenny Ho"\<close> is compared with the name of the row and is true.
\<close>

theorem Condition_eval_absent_column_witness:
  "main_header ''city'' = None \<and>
   Condition_string_eval ''city'' Operator_EQ ''Jenny Ho'' (main_header, Jenny_Ho)
     = (Inr True, (main_header(''city'' \<mapsto> 0), Jenny_Ho)) \<and>
   Condition_string_eval_wcpp ''city'' ConditionBase_EQ ''Jenny Ho'' (main_header, Jenny_Ho)
     = (Inr True, (main_header(''city'' \<mapsto> 0), Jenny_Ho))"
proof -
  fix F :: "unit float_t"
  have n: "main_header ''city'' = None" by (simp add: main_header_def)
  note thm1 = Condition_eval_absent_column
    [of main_header "Condition ''city'' Operator_EQ (String_value ''Jenny Ho'')" F Jenny_Ho]
  have "Condition_string_eval ''city'' Operator_EQ ''Jenny Ho'' (main_header(''city'' \<mapsto> 0), Jenny_Ho)
     = (Inr True, (main_header(''city'' \<mapsto> 0), Jenny_Ho))"
    by (simp add: eval_defs)
  moreover
  have "Condition_string_eval_wcpp ''city'' ConditionBase_EQ ''Jenny Ho''
      (main_header(''city'' \<mapsto> 0), Jenny_Ho)
     = (Inr True, (main_header(''city'' \<mapsto> 0), Jenny_Ho))"
    by (simp add: eval_defs)
  ultimately show ?thesis
    using thm1 n by (simp add: Condition_eval_def Condition_eval_wcpp_def Operator_defs ConditionBase_defs)
qed

text \<open>
  The claim as stated fails: with the column \<^verbatim>\<open>city\<close> absent, the condition and the
  predicate made of it return true, and no error.
\<close>

theorem Condition_eval_absent_column_counterexample:
  "main_header ''city'' = None \<and>
   fst (Condition_string_eval ''city'' Operator_EQ ''Jenny Ho'' (main_header, Jenny_Ho))
     = Inr True \<and>
   fst (Condition_string_eval_wcpp ''city'' ConditionBase_EQ ''Jenny Ho'' (main_header, Jenny_Ho))
     = Inr True \<and>
   fst (Where_eval [Condition_string_eval ''city'' Operator_EQ ''Jenny Ho''] []
     (main_header, Jenny_Ho)) = Inr True"
  unfolding Where_eval_walk
  by (simp add: eval_defs)

text \<open>
  C4, as amended. \<^verbatim>\<open>Where::eval\<close> never changes the row, and a predicate has no
  field that a call assigns. The header after the call is the header before it with,
  for each condition evaluated and in the order of the calls, the column name inserted
  with the index 0 when it is absent; so the header is unchanged when the column of
  every condition evaluated is in it.
\<close>

theorem Where_eval_frame:
  "snd (Where_eval (map (Condition_eval F) cs) ops (h, row)) =
     (fold (\<lambda>i h'. snd (header_index h' (column_of (cs ! i))))
        (Where_evaluated (map (Condition_eval F) cs) ops (h, row)) h, row) \<and>
   ((\<forall>i \<in> set (Where_evaluated (map (Condition_eval F) cs) ops (h, row)).
       h (column_of (cs ! i)) \<noteq> None) \<longrightarrow>
    snd (Where_eval (map (Condition_eval F) cs) ops (h, row)) = (h, row)) \<and>
   snd (Where_eval_wcpp (map (Condition_eval_wcpp F) cs) ops 0 (h, row)) =
     (fold (\<lambda>i h'. snd (header_index h' (column_of (cs ! i))))
        (Where_evaluated_wcpp (map (Condition_eval_wcpp F) cs) ops (h, row)) h, row) \<and>
   ((\<forall>i \<in> set (Where_evaluated_wcpp (map (Condition_eval_wcpp F) cs) ops (h, row)).
       h (column_of (cs ! i)) \<noteq> None) \<longrightarrow>
    snd (Where_eval_wcpp (map (Condition_eval_wcpp F) cs) ops 0 (h, row)) = (h, row))"
proof -
  note a = walk_store [of "Condition_eval F" Operator_AND False "Operator_OR # ops" cs h row,
      OF Condition_eval_store, folded Where_eval_walk Where_evaluated_walk]
  note b = walk_store [of "Condition_eval_wcpp F" Where_AND False "Where_OR # ops" cs h row,
      OF Condition_eval_wcpp_store, folded Where_eval_wcpp_walk Where_evaluated_wcpp_walk]
  show ?thesis
  proof (intro conjI impI)
    show "snd (Where_eval (map (Condition_eval F) cs) ops (h, row)) =
     (fold (\<lambda>i h'. snd (header_index h' (column_of (cs ! i))))
        (Where_evaluated (map (Condition_eval F) cs) ops (h, row)) h, row)" by (rule a)
    show "snd (Where_eval_wcpp (map (Condition_eval_wcpp F) cs) ops 0 (h, row)) =
     (fold (\<lambda>i h'. snd (header_index h' (column_of (cs ! i))))
        (Where_evaluated_wcpp (map (Condition_eval_wcpp F) cs) ops (h, row)) h, row)" by (rule b)
  next
    assume "\<forall>i \<in> set (Where_evaluated (map (Condition_eval F) cs) ops (h, row)).
       h (column_of (cs ! i)) \<noteq> None"
    from fold_present [OF this] a
    show "snd (Where_eval (map (Condition_eval F) cs) ops (h, row)) = (h, row)" by simp
  next
    assume "\<forall>i \<in> set (Where_evaluated_wcpp (map (Condition_eval_wcpp F) cs) ops (h, row)).
       h (column_of (cs ! i)) \<noteq> None"
    from fold_present [OF this] b
    show "snd (Where_eval_wcpp (map (Condition_eval_wcpp F) cs) ops 0 (h, row)) = (h, row)"
      by simp
  qed
qed

text \<open>
  On the row of Bill Gates the first and the third condition are evaluated; their
  columns are in the header, which the call leaves as it was.
\<close>

theorem Where_eval_frame_witness:
  "Where_evaluated
     [Condition_string_eval ''name'' Operator_NE ''Bill Gates'',
      Condition_int_eval ''age'' Operator_GT 60,
      Condition_string_eval ''gender'' Operator_EQ ''female'']
     [Operator_AND, Operator_OR] (main_header, Bill_Gates) = [0, 2] \<and>
   main_header ''name'' = Some 0 \<and> main_header ''gender'' = Some 2 \<and>
   snd (Where_eval
     [Condition_string_eval ''name'' Operator_NE ''Bill Gates'',
      Condition_int_eval ''age'' Operator_GT 60,
      Condition_string_eval ''gender'' Operator_EQ ''female'']
     [Operator_AND, Operator_OR] (main_header, Bill_Gates)) = (main_header, Bill_Gates) \<and>
   snd (Where_eval_wcpp
     [Condition_string_eval_wcpp ''name'' ConditionBase_NE ''Bill Gates'',
      Condition_int_eval_wcpp ''age'' ConditionBase_GT 60,
      Condition_string_eval_wcpp ''gender'' ConditionBase_EQ ''female'']
     [Where_AND, Where_OR] 0 (main_header, Bill_Gates)) = (main_header, Bill_Gates)"
proof -
  fix F :: "unit float_t"
  let ?cs = "[Condition ''name'' Operator_NE (String_value ''Bill Gates''),
      Condition ''age'' Operator_GT (Int_value 60),
      Condition ''gender'' Operator_EQ (String_value ''female'')] :: unit Condition list"
  note thm1 = Where_eval_frame [of F ?cs "[Operator_AND, Operator_OR]" main_header Bill_Gates]
  note thm2 = Where_eval_frame [of F ?cs "[Where_AND, Where_OR]" main_header Bill_Gates]
  from thm1 thm2 show ?thesis
    unfolding Where_evaluated_walk Where_evaluated_wcpp_walk Where_eval_walk Where_eval_wcpp_walk
    by (simp add: eval_defs)
qed

text \<open>
  The claim as stated fails: a predicate on the absent column \<^verbatim>\<open>city\<close> leaves the
  header with \<^verbatim>\<open>city\<close> bound to 0.
\<close>

theorem Where_eval_frame_counterexample:
  "main_header ''city'' = None \<and>
   fst (snd (Where_eval [Condition_string_eval ''city'' Operator_EQ ''Jenny Ho''] []
     (main_header, Jenny_Ho))) ''city'' = Some 0 \<and>
   fst (snd (Where_eval_wcpp [Condition_string_eval_wcpp ''city'' ConditionBase_EQ ''Jenny Ho''] []
     0 (main_header, Jenny_Ho))) ''city'' = Some 0"
  unfolding Where_eval_walk Where_eval_wcpp_walk
  by (simp add: eval_defs)

text \<open>
  C5, as amended. \<^verbatim>\<open>Where::eval\<close> on a combinator with no condition reads
  \<^verbatim>\<open>conditions[0]\<close> outside the vector: there is no check and no error for an empty
  predicate. For every combinator with more conditions than operators (so for
  \<open>N \<ge> 1\<close> conditions and \<open>N - 1\<close> operators), no read outside the vector of
  conditions is reached.
\<close>

theorem Where_eval_conditions_bounds:
  fixes cs :: "'f Condition list"
  shows "Where_eval [] ops s = (Inl conditions_out_of_bounds, s) \<and>
   Where_eval_wcpp [] ops 0 s = (Inl conditions_out_of_bounds, s) \<and>
   (length ops < length cs \<longrightarrow>
      fst (Where_eval (map (Condition_eval F) cs) ops t) \<noteq> Inl conditions_out_of_bounds \<and>
      fst (Where_eval_wcpp (map (Condition_eval_wcpp F) cs) ops 0 t)
        \<noteq> Inl conditions_out_of_bounds)"
proof (intro conjI impI)
  show "Where_eval [] ops s = (Inl conditions_out_of_bounds, s)"
    by (simp add: Where_eval_def condition_at_def)
  show "Where_eval_wcpp [] ops 0 s = (Inl conditions_out_of_bounds, s)"
    by (simp add: condition_at_def)
  assume "length ops < length cs"
  then have len: "length (B # ops) \<le> length (map E cs)" for B :: operator_t and E :: "'f Condition \<Rightarrow> store ConditionBase"
    by simp
  show "fst (Where_eval (map (Condition_eval F) cs) ops t) \<noteq> Inl conditions_out_of_bounds"
    unfolding Where_eval_walk
    by (rule walk_in_bounds [OF _ len]) (simp add: Condition_eval_in_bounds)
  show "fst (Where_eval_wcpp (map (Condition_eval_wcpp F) cs) ops 0 t)
        \<noteq> Inl conditions_out_of_bounds"
    unfolding Where_eval_wcpp_walk
    by (rule walk_in_bounds [OF _ len]) (simp add: Condition_eval_in_bounds)
qed

text \<open>Two conditions and one operator.\<close>

theorem Where_eval_conditions_bounds_witness:
  "length [Operator_AND] < length
     [Condition ''gender'' Operator_EQ (String_value ''female'') :: unit Condition,
      Condition ''age'' Operator_LE (Int_value 30)] \<and>
   fst (Where_eval
     [Condition_string_eval ''gender'' Operator_EQ ''female'',
      Condition_int_eval ''age'' Operator_LE 30]
     [Operator_AND] (main_header, Jenny_Ho)) = Inr True \<and>
   fst (Where_eval_wcpp
     [Condition_string_eval_wcpp ''gender'' ConditionBase_EQ ''female'',
      Condition_int_eval_wcpp ''age'' ConditionBase_LE 30]
     [Where_AND] 0 (main_header, Jenny_Ho)) = Inr True"
proof -
  fix F :: "unit float_t"
  let ?cs = "[Condition ''gender'' Operator_EQ (String_value ''female''),
      Condition ''age'' Operator_LE (Int_value 30)] :: unit Condition list"
  note thm1 = Where_eval_conditions_bounds
    [of "[Operator_AND]" "(main_header, Jenny_Ho)" ?cs F "(main_header, Jenny_Ho)"]
  note thm2 = Where_eval_conditions_bounds
    [of "[Where_AND]" "(main_header, Jenny_Ho)" ?cs F "(main_header, Jenny_Ho)"]
  from thm1 thm2 show ?thesis
    unfolding Where_eval_walk Where_eval_wcpp_walk
    by (simp add: eval_defs)
qed

text \<open>
  The claim as stated fails: the empty combinator reads outside the vector, and so
  does a combinator with one condition, true of the row, followed by one AND.
\<close>

theorem Where_eval_conditions_bounds_counterexample:
  "Where_eval [] [] (main_header, Jenny_Ho)
     = (Inl conditions_out_of_bounds, (main_header, Jenny_Ho)) \<and>
   fst (Where_eval [Condition_string_eval ''gender'' Operator_EQ ''female'']
     [Operator_AND] (main_header, Jenny_Ho)) = Inl conditions_out_of_bounds \<and>
   fst (Where_eval_wcpp [Condition_string_eval_wcpp ''gender'' ConditionBase_EQ ''female'']
     [Where_AND] 0 (main_header, Jenny_Ho)) = Inl conditions_out_of_bounds"
  unfolding Where_eval_walk Where_eval_wcpp_walk
  by (simp add: eval_defs)

text \<open>
  C6. For every predicate whose operators are all AND, \<^verbatim>\<open>Where::eval\<close> returns true
  if and only if every condition evaluates to true; and no condition placed after a
  condition that evaluates to false is evaluated.
\<close>

theorem Where_eval_only_AND:
  assumes "length cs = Suc (length ops)"
  shows
    "((\<forall>x \<in> set ops. x = Operator_AND) \<longrightarrow>
        (fst (Where_eval (map (Condition_eval F) cs) ops s) = Inr True) =
        (\<forall>c \<in> set cs. fst (Condition_eval F c s) = Inr True) \<and>
        (\<forall>k < length cs. fst (Condition_eval F (cs ! k) s) = Inr False \<longrightarrow>
           (\<forall>i \<in> set (Where_evaluated (map (Condition_eval F) cs) ops s). i \<le> k))) \<and>
     ((\<forall>x \<in> set ops. x = Where_AND) \<longrightarrow>
        (fst (Where_eval_wcpp (map (Condition_eval_wcpp F) cs) ops 0 s) = Inr True) =
        (\<forall>c \<in> set cs. fst (Condition_eval_wcpp F c s) = Inr True) \<and>
        (\<forall>k < length cs. fst (Condition_eval_wcpp F (cs ! k) s) = Inr False \<longrightarrow>
           (\<forall>i \<in> set (Where_evaluated_wcpp (map (Condition_eval_wcpp F) cs) ops s). i \<le> k)))"
proof -
  obtain h row where s: "s = (h, row)" by (cases s)
  let ?I = "\<lambda>t. grown h (fst t) \<and> snd t = row"
  have I: "?I s" by (simp add: s grown_refl)
  note a = walk_first_only_and
    [OF assms OR_not_AND(1) Conditions_steady [of h row F cs, folded s] I]
  note b = walk_first_only_and
    [OF assms OR_not_AND(2) Conditions_wcpp_steady [of h row F cs, folded s] I]
  show ?thesis
    unfolding Where_eval_walk Where_eval_wcpp_walk Where_evaluated_walk Where_evaluated_wcpp_walk
    using a b by blast
qed

text \<open>
  \<^verbatim>\<open>age > 60 AND name > 5\<close> on the row of Jenny Ho: the first condition is false, and
  the second one, whose conversion would throw in \<^verbatim>\<open>src/where.cpp\<close>, is not evaluated.
\<close>

theorem Where_eval_only_AND_witness:
  "fst (Condition_int_eval_wcpp ''name'' ConditionBase_GT 5 (main_header, Jenny_Ho))
     = Inl (Throw invalid_argument) \<and>
   fst (Where_eval_wcpp
     [Condition_int_eval_wcpp ''age'' ConditionBase_GT 60,
      Condition_int_eval_wcpp ''name'' ConditionBase_GT 5]
     [Where_AND] 0 (main_header, Jenny_Ho)) = Inr False \<and>
   Where_evaluated_wcpp
     [Condition_int_eval_wcpp ''age'' ConditionBase_GT 60,
      Condition_int_eval_wcpp ''name'' ConditionBase_GT 5]
     [Where_AND] (main_header, Jenny_Ho) = [0] \<and>
   fst (Where_eval
     [Condition_int_eval ''age'' Operator_GT 60,
      Condition_int_eval ''name'' Operator_GT 5]
     [Operator_AND] (main_header, Jenny_Ho)) = Inr False \<and>
   Where_evaluated
     [Condition_int_eval ''age'' Operator_GT 60,
      Condition_int_eval ''name'' Operator_GT 5]
     [Operator_AND] (main_header, Jenny_Ho) = [0]"
proof -
  fix F :: "unit float_t"
  let ?cs = "[Condition ''age'' Operator_GT (Int_value 60),
      Condition ''name'' Operator_GT (Int_value 5)] :: unit Condition list"
  note thm1 = Where_eval_only_AND [of ?cs "[Operator_AND]" F "(main_header, Jenny_Ho)"]
  note thm2 = Where_eval_only_AND [of ?cs "[Where_AND]" F "(main_header, Jenny_Ho)"]
  from thm1 thm2 show ?thesis
    unfolding Where_evaluated_walk Where_evaluated_wcpp_walk Where_eval_walk Where_eval_wcpp_walk
    by (simp add: eval_defs less_Suc_eq)
qed

text \<open>
  C7, as amended. For every predicate with no AND among its operators,
  \<^verbatim>\<open>Where::eval\<close> returns true if and only if some condition evaluates to true and
  every condition before it evaluates to false; and no condition placed after a
  condition that evaluates to true is evaluated.
\<close>

theorem Where_eval_only_OR:
  assumes "length cs = Suc (length ops)"
  shows
    "((\<forall>x \<in> set ops. x \<noteq> Operator_AND) \<longrightarrow>
        (fst (Where_eval (map (Condition_eval F) cs) ops s) = Inr True) =
        (\<exists>k < length cs. fst (Condition_eval F (cs ! k) s) = Inr True \<and>
           (\<forall>j < k. fst (Condition_eval F (cs ! j) s) = Inr False)) \<and>
        (\<forall>k < length cs. fst (Condition_eval F (cs ! k) s) = Inr True \<longrightarrow>
           (\<forall>i \<in> set (Where_evaluated (map (Condition_eval F) cs) ops s). i \<le> k))) \<and>
     ((\<forall>x \<in> set ops. x \<noteq> Where_AND) \<longrightarrow>
        (fst (Where_eval_wcpp (map (Condition_eval_wcpp F) cs) ops 0 s) = Inr True) =
        (\<exists>k < length cs. fst (Condition_eval_wcpp F (cs ! k) s) = Inr True \<and>
           (\<forall>j < k. fst (Condition_eval_wcpp F (cs ! j) s) = Inr False)) \<and>
        (\<forall>k < length cs. fst (Condition_eval_wcpp F (cs ! k) s) = Inr True \<longrightarrow>
           (\<forall>i \<in> set (Where_evaluated_wcpp (map (Condition_eval_wcpp F) cs) ops s). i \<le> k)))"
proof -
  obtain h row where s: "s = (h, row)" by (cases s)
  let ?I = "\<lambda>t. grown h (fst t) \<and> snd t = row"
  have I: "?I s" by (simp add: s grown_refl)
  note a = walk_first_only_or
    [OF assms OR_not_AND(1) Conditions_steady [of h row F cs, folded s] I]
  note b = walk_first_only_or
    [OF assms OR_not_AND(2) Conditions_wcpp_steady [of h row F cs, folded s] I]
  show ?thesis
    unfolding Where_eval_walk Where_eval_wcpp_walk Where_evaluated_walk Where_evaluated_wcpp_walk
    using a b by blast
qed

text \<open>
  \<^verbatim>\<open>gender = "female" OR name > 5\<close> on the row of Jenny Ho: the first condition is
  true and the second one is not evaluated.
\<close>

theorem Where_eval_only_OR_witness:
  "fst (Condition_int_eval_wcpp ''name'' ConditionBase_GT 5 (main_header, Jenny_Ho))
     = Inl (Throw invalid_argument) \<and>
   fst (Where_eval_wcpp
     [Condition_string_eval_wcpp ''gender'' ConditionBase_EQ ''female'',
      Condition_int_eval_wcpp ''name'' ConditionBase_GT 5]
     [Where_OR] 0 (main_header, Jenny_Ho)) = Inr True \<and>
   Where_evaluated_wcpp
     [Condition_string_eval_wcpp ''gender'' ConditionBase_EQ ''female'',
      Condition_int_eval_wcpp ''name'' ConditionBase_GT 5]
     [Where_OR] (main_header, Jenny_Ho) = [0] \<and>
   fst (Where_eval
     [Condition_string_eval ''gender'' Operator_EQ ''female'',
      Condition_int_eval ''name'' Operator_GT 5]
     [Operator_OR] (main_header, Jenny_Ho)) = Inr True \<and>
   Where_evaluated
     [Condition_string_eval ''gender'' Operator_EQ ''female'',
      Condition_int_eval ''name'' Operator_GT 5]
     [Operator_OR] (main_header, Jenny_Ho) = [0]"
proof -
  fix F :: "unit float_t"
  let ?cs = "[Condition ''gender'' Operator_EQ (String_value ''female''),
      Condition ''name'' Operator_GT (Int_value 5)] :: unit Condition list"
  note thm1 = Where_eval_only_OR [of ?cs "[Operator_OR]" F "(main_header, Jenny_Ho)"]
  note thm2 = Where_eval_only_OR [of ?cs "[Where_OR]" F "(main_header, Jenny_Ho)"]
  from thm1 thm2 show ?thesis
    unfolding Where_evaluated_walk Where_evaluated_wcpp_walk Where_eval_walk Where_eval_wcpp_walk
    by (simp add: eval_defs less_Suc_eq)
qed

text \<open>
  The claim as stated fails in \<^verbatim>\<open>src/where.cpp\<close>: with an age that is not a number,
  \<^verbatim>\<open>age > 60 OR gender = "female"\<close> raises \<^verbatim>\<open>std::invalid_argument\<close> although its
  second condition evaluates to true.
\<close>

theorem Where_eval_only_OR_counterexample:
  "fst (Condition_string_eval_wcpp ''gender'' ConditionBase_EQ ''female''
     (main_header, [''Ann'', ''unknown'', ''female'', ''100'', ''IBX''])) = Inr True \<and>
   fst (Where_eval_wcpp
     [Condition_int_eval_wcpp ''age'' ConditionBase_GT 60,
      Condition_string_eval_wcpp ''gender'' ConditionBase_EQ ''female'']
     [Where_OR] 0 (main_header, [''Ann'', ''unknown'', ''female'', ''100'', ''IBX'']))
     = Inl (Throw invalid_argument)"
  unfolding Where_eval_wcpp_walk by (simp add: eval_defs)

text \<open>
  C8. \<^verbatim>\<open>Operator::toString\<close> gives the six comparison operators their tokens. It gives
  \<^verbatim>\<open>Operator::AND\<close>, which is 7, the token \<^verbatim>\<open>"OR"\<close>, and it reads the array of eight
  tokens at the index 8 for \<^verbatim>\<open>Operator::OR\<close>: the claim holds for the comparisons and
  fails for the two logical operators.
\<close>

theorem Operator_toString_tokens:
  "Operator_toString Operator_EQ = Inr ''='' \<and>
   Operator_toString Operator_NE = Inr ''!='' \<and>
   Operator_toString Operator_LT = Inr ''<'' \<and>
   Operator_toString Operator_LE = Inr ''<='' \<and>
   Operator_toString Operator_GT = Inr ''>'' \<and>
   Operator_toString Operator_GE = Inr ''>='' \<and>
   Operator_toString Operator_AND = Inr ''OR'' \<and>
   Operator_toString Operator_OR = Inl ops_out_of_bounds"
  by (simp add: Operator_toString_def Operator_ops_def Operator_defs)

text \<open>
  C9. \<^verbatim>\<open>Where::eval\<close> terminates: \<open>Where_loop\<close>, \<open>Where_eval_wcpp\<close> and
  \<open>Where_while_wcpp\<close> are total functions, by the termination proofs given with them
  (the number of operators left decreases). For all conditions, operators and stores,
  the positions of the conditions a call evaluates are strictly increasing and below
  the number of conditions, so there are at most that many evaluations and none is
  repeated.
\<close>

theorem Where_eval_evaluations_bounded:
  "length (Where_evaluated conditions operators s) \<le> length conditions \<and>
   sorted_wrt (<) (Where_evaluated conditions operators s) \<and>
   set (Where_evaluated conditions operators s) \<subseteq> {..< length conditions} \<and>
   length (Where_evaluated_wcpp conditions operators s) \<le> length conditions \<and>
   sorted_wrt (<) (Where_evaluated_wcpp conditions operators s) \<and>
   set (Where_evaluated_wcpp conditions operators s) \<subseteq> {..< length conditions}"
  using walk_log_increasing [of Operator_AND False "Operator_OR # operators" conditions 0 s]
    walk_log_increasing [of Where_AND False "Where_OR # operators" conditions 0 s]
    walk_log_length [of Operator_AND False "Operator_OR # operators" conditions 0 s]
    walk_log_length [of Where_AND False "Where_OR # operators" conditions 0 s]
  unfolding Where_evaluated_walk Where_evaluated_wcpp_walk
  by auto

text \<open>
  C10. For every condition whose operator is none of the six comparison operators, and
  every header and row for which the lookup of the column and the conversion of the cell
  succeed, \<^verbatim>\<open>Condition::eval\<close> returns false and changes nothing.
\<close>

theorem Condition_eval_default:
  assumes "lookup_and_conversion_succeed F c s"
  shows
    "(op_of c \<notin> {Operator_EQ, Operator_NE, Operator_LT, Operator_LE, Operator_GT, Operator_GE}
        \<longrightarrow> Condition_eval F c s = (Inr False, s)) \<and>
     (op_of c \<notin> {ConditionBase_EQ, ConditionBase_NE, ConditionBase_LT, ConditionBase_LE,
                 ConditionBase_GT, ConditionBase_GE}
        \<longrightarrow> Condition_eval_wcpp F c s = (Inr False, s))"
proof -
  obtain h row where s: "s = (h, row)" by (cases s)
  from assms obtain cell where cell: "referenced_cell h row (column_of c) = Some cell"
    and conv: "converts F (value_of c) cell"
    by (auto simp: lookup_and_conversion_succeed_def s split: option.splits)
  note l = lookup_succeeds [OF cell]
  from conv show ?thesis
    by (cases "value_of c")
       (auto simp: s Condition_eval_shape Condition_eval_wcpp_shape l compared_def
          compared_wcpp_def converts_def Condition_switch_def Condition_switch_wcpp_def
          split: sum.splits)
qed

text \<open>
  The age of Jenny Ho is 21; with the operator 7 (and 6 in \<^verbatim>\<open>src/where.cpp\<close>) the
  condition on the literal 21 is false.
\<close>

theorem Condition_eval_default_witness:
  "referenced_cell main_header Jenny_Ho ''age'' = Some ''21'' \<and> stoi ''21'' = Inr 21 \<and>
   Condition_int_eval ''age'' Operator_AND 21 (main_header, Jenny_Ho)
     = (Inr False, (main_header, Jenny_Ho)) \<and>
   Condition_int_eval_wcpp ''age'' 6 21 (main_header, Jenny_Ho)
     = (Inr False, (main_header, Jenny_Ho))"
proof -
  fix F :: "unit float_t"
  note thm1 = Condition_eval_default
    [of F "Condition ''age'' Operator_AND (Int_value 21)" "(main_header, Jenny_Ho)"]
  note thm2 = Condition_eval_default
    [of F "Condition ''age'' 6 (Int_value 21)" "(main_header, Jenny_Ho)"]
  from thm1 thm2 show ?thesis by (simp add: eval_defs)
qed

end
